theory Spec2Isabelle
  imports Main "HOL-Library.Word" "HOL-Library.Sublist"
begin

section \<open>Errors, messages and channels\<close>

text \<open>
  Go errors as values. \<open>Err s\<close> is \<^verbatim>\<open>fmt.Errorf(s)\<close> without a wrapped cause,
  \<open>Wrap s e\<close> is \<^verbatim>\<open>fmt.Errorf(s + ": %w", e)\<close>, and the last two are the reasons a
  \<^verbatim>\<open>context.Context\<close> reports from \<^verbatim>\<open>ctx.Err()\<close>. A Go \<^verbatim>\<open>error\<close> that may be
  \<^verbatim>\<open>nil\<close> is an \<open>error option\<close>.
\<close>

datatype error =
    Err string
  | Wrap string error
  | Canceled
  | DeadlineExceeded

text \<open>
  \<^verbatim>\<open>type Message[T any] struct\<close> (pipeline.go, lines 125-130). \<open>Timestamp\<close> is an
  \<^verbatim>\<open>int64\<close>; \<open>Metadata\<close> is a Go map, which may be \<^verbatim>\<open>nil\<close>: \<open>None\<close> is the nil map
  and \<open>Some m\<close> an allocated one.
\<close>

record 'a Message =
  Key :: string
  Value :: 'a
  Timestamp :: "64 word"
  Metadata :: "(string \<rightharpoonup> string) option"

text \<open>
  A buffered Go channel: its buffer in arrival order, its capacity and whether it has been
  closed. \<open>taken\<close> is a history variable, the elements received from the channel so far;
  no operation reads it. Every channel of the pipeline is made with a positive capacity,
  so a send proceeds exactly when the buffer is not full.
\<close>

record 'm chan =
  buf :: "'m list"
  cap :: nat
  closed :: bool
  taken :: "'m list"

definition make_chan :: "nat \<Rightarrow> 'm chan" where
  "make_chan n = \<lparr>buf = [], cap = n, closed = False, taken = []\<rparr>"

definition can_send :: "'m chan \<Rightarrow> bool" where
  "can_send c = (length (buf c) < cap c)"

definition send :: "'m \<Rightarrow> 'm chan \<Rightarrow> 'm chan" where
  "send m c = c\<lparr>buf := buf c @ [m]\<rparr>"

definition close :: "'m chan \<Rightarrow> 'm chan" where
  "close c = c\<lparr>closed := True\<rparr>"

text \<open>
  A receive: \<open>None\<close> when it blocks (empty and open), \<open>Some (None, c)\<close> when the channel
  is empty and closed (\<^verbatim>\<open>ok == false\<close>, the end of a \<^verbatim>\<open>range\<close> loop), and
  \<open>Some (Some m, c')\<close> when \<open>m\<close> is taken from the front of the buffer.
\<close>

definition recv :: "'m chan \<Rightarrow> ('m option \<times> 'm chan) option" where
  "recv c = (case buf c of
       m # ms \<Rightarrow> Some (Some m, c\<lparr>buf := ms, taken := taken c @ [m]\<rparr>)
     | [] \<Rightarrow> if closed c then Some (None, c) else None)"

text \<open>Everything ever sent on a channel: what was received, then what is still buffered.\<close>

definition sent :: "'m chan \<Rightarrow> 'm list" where
  "sent c = taken c @ buf c"

section \<open>Sources, operators, sinks and the pipeline\<close>

text \<open>
  The three shipped sources.
  \<^item> \<open>ChannelSource vs cl\<close> (source/channel.go): \<open>vs\<close> are the values its input channel
    \<^verbatim>\<open>in\<close> delivers, in order, and \<open>cl\<close> tells whether \<^verbatim>\<open>in\<close> is closed after them
    (the producer feeding \<^verbatim>\<open>in\<close> is outside the pipeline).
  \<^item> \<open>CronSource interval generator\<close>: the interval is a \<^verbatim>\<open>time.Duration\<close> (\<^verbatim>\<open>int64\<close>);
    \<open>generator k\<close> is what the \<open>k\<close>-th call of the Go \<^verbatim>\<open>func() T\<close> returns.
  \<^item> \<open>HTTPSource url interval parser\<close> (source/http.go): the parser maps a response body to
    a value or an error.
\<close>

datatype 'a Source =
    ChannelSource "'a list" bool
  | CronSource "64 word" "nat \<Rightarrow> 'a"
  | HTTPSource string "64 word" "string \<Rightarrow> error + 'a"

datatype 'a Operator =
    MapOperator "'a \<Rightarrow> 'a"
  | FilterOperator "'a \<Rightarrow> bool"

text \<open>
  \<^verbatim>\<open>type Sink[T any] interface\<close>: any implementation. \<open>Write h m\<close> is what the call
  \<^verbatim>\<open>Write(ctx, m)\<close> returns after the earlier calls \<open>h\<close>, and \<open>Close h\<close> what
  \<^verbatim>\<open>Close()\<close> returns then; a sink that answers from an outside world is one such function
  per run.
\<close>

record 'a Sink =
  Write :: "'a Message list \<Rightarrow> 'a Message \<Rightarrow> error option"
  Close :: "'a Message list \<Rightarrow> error option"

text \<open>
  \<^verbatim>\<open>type Pipeline[T any] struct\<close> (pipeline.go, lines 12-19). \<open>sink = None\<close> is the
  nil interface; \<open>errChan\<close> is the channel made by \<^verbatim>\<open>New\<close>.
\<close>

record 'a Pipeline =
  name :: string
  source :: "'a Source"
  operators :: "'a Operator list"
  sink :: "'a Sink option"
  bufferCap :: int
  errChan :: "error chan"

definition New :: "string \<Rightarrow> 'a Source \<Rightarrow> 'a Pipeline" where
  "New nm sr = \<lparr>name = nm, source = sr, operators = [], sink = None,
                bufferCap = 100, errChan = make_chan 10\<rparr>"

definition WithBufferSize :: "int \<Rightarrow> 'a Pipeline \<Rightarrow> 'a Pipeline" where
  "WithBufferSize n p = p\<lparr>bufferCap := n\<rparr>"

definition Map :: "('a \<Rightarrow> 'a) \<Rightarrow> 'a Pipeline \<Rightarrow> 'a Pipeline" where
  "Map fn p = p\<lparr>operators := operators p @ [MapOperator fn]\<rparr>"

definition Filter :: "('a \<Rightarrow> bool) \<Rightarrow> 'a Pipeline \<Rightarrow> 'a Pipeline" where
  "Filter fn p = p\<lparr>operators := operators p @ [FilterOperator fn]\<rparr>"

definition To :: "'a Sink \<Rightarrow> 'a Pipeline \<Rightarrow> 'a Pipeline" where
  "To sk p = p\<lparr>sink := Some sk\<rparr>"

section \<open>What the sources emit\<close>

text \<open>\<^verbatim>\<open>fmt.Sprintf("%d", n)\<close>: decimal digits, with a minus sign for a negative number.\<close>

function show_nat :: "nat \<Rightarrow> string" where
  "show_nat n = (if n < 10 then [char_of (48 + n)]
                 else show_nat (n div 10) @ [char_of (48 + n mod 10)])"
  by pat_completeness auto
termination
  by (relation "measure (\<lambda>n. n)") auto

definition show_int :: "int \<Rightarrow> string" where
  "show_int i = (if i < 0 then CHR ''-'' # show_nat (nat (- i)) else show_nat (nat i))"

text \<open>
  source/channel.go, lines 35-38: only \<^verbatim>\<open>Value\<close> and \<^verbatim>\<open>Metadata\<close> are given, so key and
  timestamp are Go's zero values.
\<close>

definition channel_msg :: "'a \<Rightarrow> 'a Message" where
  "channel_msg v = \<lparr>Key = [], Value = v, Timestamp = 0, Metadata = Some Map.empty\<rparr>"

text \<open>
  The timer source, lines 45-50 of its file: the clock is read twice, once for the key and
  once for the timestamp.
\<close>

definition cron_msg :: "64 word \<Rightarrow> 64 word \<Rightarrow> 'a \<Rightarrow> 'a Message" where
  "cron_msg now1 now2 v =
     \<lparr>Key = ''cron-'' @ show_int (sint now1), Value = v, Timestamp = now2,
      Metadata = Some Map.empty\<rparr>"

text \<open>
  What one HTTP GET can come to: building the request fails, the transport fails, or a
  response arrives with a status code and a body that can be read (\<open>Some\<close>) or not.
\<close>

datatype http_result =
    RequestError
  | TransportError
  | Response int "string option"

text \<open>
  \<^verbatim>\<open>HTTPSource.poll\<close> (source/http.go, lines 77-112) up to the message it builds: every
  failure returns without a message.
\<close>

definition poll_msg ::
  "string \<Rightarrow> (string \<Rightarrow> error + 'a) \<Rightarrow> http_result \<Rightarrow> 64 word \<Rightarrow> 'a Message option" where
  "poll_msg url parser r now =
     (case r of
        RequestError \<Rightarrow> None
      | TransportError \<Rightarrow> None
      | Response status body \<Rightarrow>
          if status \<noteq> 200 then None
          else (case body of
                  None \<Rightarrow> None
                | Some b \<Rightarrow>
                    (case parser b of
                       Inl e \<Rightarrow> None
                     | Inr v \<Rightarrow>
                         Some \<lparr>Key = url, Value = v, Timestamp = now,
                               Metadata = Some [''source'' \<mapsto> ''http'', ''url'' \<mapsto> url,
                                                ''status'' \<mapsto> show_int status]\<rparr>)))"

section \<open>Goroutines and their shared state\<close>

text \<open>
  Each goroutine of a run is a small state machine that moves at its blocking points.
  \<^item> The source's producer: about to create its ticker and poll (\<open>SStart\<close>, HTTP only),
    waiting in its loop (\<open>SIdle\<close>), blocked in the send of a message (\<open>SSending\<close>),
    returned after closing its channel (\<open>SDone\<close>), or panicked (\<open>SPanic\<close>:
    \<^verbatim>\<open>time.NewTicker\<close> panics on a non-positive duration, which ends the whole process).
  \<^item> An operator's forwarder: at \<^verbatim>\<open>range in\<close>, blocked in its send, or returned.
  \<^item> The consumer of \<^verbatim>\<open>Run\<close>: at \<^verbatim>\<open>range current\<close>, blocked sending a wrapped sink
    error to \<^verbatim>\<open>errChan\<close>, or returned.
  \<^item> The caller of \<^verbatim>\<open>Run\<close>: in the final \<^verbatim>\<open>select\<close>, or returned with \<^verbatim>\<open>Run\<close>'s result.
\<close>

datatype 'a sproc = SStart | SIdle | SSending "'a Message" | SDone | SPanic

datatype 'a oproc = OIdle | OSending "'a Message" | ODone

datatype cproc = CIdle | CSending error | CDone

datatype driver = Waiting | Returned "error option"

datatype call = SinkClose | SourceClose

datatype start_call = StreamCall | ProcessCall

text \<open>
  The state of one run. \<open>chans ! 0\<close> is the source's channel and \<open>chans ! Suc i\<close> the
  output of operator \<open>i\<close>, so the last one is \<^verbatim>\<open>current\<close>, which the consumer reads.
  \<open>feed\<close> is what the channel source has still to receive from \<^verbatim>\<open>in\<close>, \<open>calls\<close> counts
  the generator calls of the timer source, \<open>written\<close> lists the messages passed to
  \<^verbatim>\<open>Sink.Write\<close>, \<open>errs\<close> is \<^verbatim>\<open>p.errChan\<close>, \<open>done_closed\<close> tells whether \<^verbatim>\<open>done\<close> is
  closed, and \<open>closes\<close> lists the \<^verbatim>\<open>Close\<close> calls \<^verbatim>\<open>Run\<close> has made.
\<close>

record 'a state =
  cancelled :: "error option"
  feed :: "'a list"
  calls :: nat
  src :: "'a sproc"
  chans :: "'a Message chan list"
  procs :: "'a oproc list"
  cons :: cproc
  written :: "'a Message list"
  errs :: "error chan"
  done_closed :: bool
  drv :: driver
  closes :: "call list"

text \<open>
  \<^verbatim>\<open>Stream\<close> of each source. \<open>Inl e\<close>: the call returned \<open>e\<close> before any \<^verbatim>\<open>go\<close>
  statement. \<open>Inr (q, c)\<close>: it spawned its producer, which starts in state \<open>q\<close>, and
  returned the channel \<open>c\<close>. The HTTP source has no check of its interval.
\<close>

definition ChannelSource_Stream :: "'a list \<Rightarrow> bool \<Rightarrow> error + 'a sproc \<times> 'a Message chan" where
  "ChannelSource_Stream vs cl = Inr (SIdle, make_chan 100)"

definition CronSource_Stream :: "64 word \<Rightarrow> error + 'a sproc \<times> 'a Message chan" where
  "CronSource_Stream interval =
     (if sint interval \<le> 0 then Inl (Err ''interval must be positive'')
      else Inr (SIdle, make_chan 10))"

definition HTTPSource_Stream ::
  "string \<Rightarrow> 64 word \<Rightarrow> (string \<Rightarrow> error + 'a) \<Rightarrow> error + 'a sproc \<times> 'a Message chan" where
  "HTTPSource_Stream url interval parser = Inr (SStart, make_chan 10)"

fun Stream :: "'a Source \<Rightarrow> error + 'a sproc \<times> 'a Message chan" where
  "Stream (ChannelSource vs cl) = ChannelSource_Stream vs cl"
| "Stream (CronSource interval generator) = CronSource_Stream interval"
| "Stream (HTTPSource url interval parser) = HTTPSource_Stream url interval parser"

text \<open>\<^verbatim>\<open>Close\<close> of each shipped source returns \<^verbatim>\<open>nil\<close>.\<close>

fun Source_Close :: "'a Source \<Rightarrow> error option" where
  "Source_Close (ChannelSource vs cl) = None"
| "Source_Close (CronSource interval generator) = None"
| "Source_Close (HTTPSource url interval parser) = None"

text \<open>
  \<^verbatim>\<open>Process\<close> of both operators (pipeline.go, lines 157-178 and 186-208): a channel of
  capacity 100, a forwarder goroutine, and no error.
\<close>

fun Process :: "'a Operator \<Rightarrow> error + 'a oproc \<times> 'a Message chan" where
  "Process (MapOperator fn) = Inr (OIdle, make_chan 100)"
| "Process (FilterOperator fn) = Inr (OIdle, make_chan 100)"

text \<open>The loop over \<^verbatim>\<open>p.operators\<close> (pipeline.go, lines 75-81), with the calls it makes.\<close>

fun start_operators ::
  "'a Operator list \<Rightarrow> start_call list \<times> (error + 'a oproc list \<times> 'a Message chan list)" where
  "start_operators [] = ([], Inr ([], []))"
| "start_operators (op # ops) =
     (case Process op of
        Inl e \<Rightarrow> ([ProcessCall], Inl (Wrap ''process operator'' e))
      | Inr (q, c) \<Rightarrow>
          (case start_operators ops of
             (tr, Inl e) \<Rightarrow> (ProcessCall # tr, Inl e)
           | (tr, Inr (qs, cs)) \<Rightarrow> (ProcessCall # tr, Inr (q # qs, c # cs))))"

text \<open>
  \<^verbatim>\<open>Run\<close> up to its final \<^verbatim>\<open>select\<close> (pipeline.go, lines 60-105): the calls to \<^verbatim>\<open>Stream\<close>
  and \<^verbatim>\<open>Process\<close> it made, and either the error it returned or the state in which every
  goroutine has been spawned and none has moved yet.
\<close>

definition Run_start :: "'a Pipeline \<Rightarrow> start_call list \<times> (error + 'a state)" where
  "Run_start p =
     (case sink p of
        None \<Rightarrow> ([], Inl (Err ''sink is required''))
      | Some sk \<Rightarrow>
          (case Stream (source p) of
             Inl e \<Rightarrow> ([StreamCall], Inl (Wrap ''start source'' e))
           | Inr (q0, c0) \<Rightarrow>
               (case start_operators (operators p) of
                  (tr, Inl e) \<Rightarrow> (StreamCall # tr, Inl e)
                | (tr, Inr (qs, cs)) \<Rightarrow>
                    (StreamCall # tr,
                     Inr \<lparr>cancelled = None,
                          feed = (case source p of ChannelSource vs cl \<Rightarrow> vs | _ \<Rightarrow> []),
                          calls = 0, src = q0, chans = c0 # cs, procs = qs, cons = CIdle,
                          written = [], errs = errChan p, done_closed = False,
                          drv = Waiting, closes = []\<rparr>))))"

section \<open>The moves of a run\<close>

text \<open>
  A run is an interleaving of the moves below; a schedule is the list of moves taken.
  What the outside world decides rides on the move: the reason of a cancellation, the two
  clock readings of a timer tick, the outcome of an HTTP GET and the clock reading after it.
  Where a Go \<^verbatim>\<open>select\<close> has several ready cases it may take any of them, so each case is
  a move of its own, enabled when its channel operation can proceed.
\<close>

datatype action =
    Cancel error
  | SrcRecv
  | SrcTick "64 word" "64 word"
  | SrcPoll http_result "64 word"
  | SrcSend
  | SrcAbort
  | OpRecv nat
  | OpSend nat
  | OpAbort nat
  | ConsRecv
  | ConsSend
  | ConsAbort
  | WaitClose
  | DrvDone
  | DrvCancel
  | DrvErr

text \<open>A producer returns: its deferred \<^verbatim>\<open>close\<close> runs on its own channel.\<close>

definition finish_source :: "'a state \<Rightarrow> 'a state" where
  "finish_source s = s\<lparr>src := SDone, chans := (chans s)[0 := close (chans s ! 0)]\<rparr>"

definition finish_op :: "nat \<Rightarrow> 'a state \<Rightarrow> 'a state" where
  "finish_op i s =
     s\<lparr>procs := (procs s)[i := ODone],
       chans := (chans s)[Suc i := close (chans s ! Suc i)]\<rparr>"

text \<open>
  The \<^verbatim>\<open>done\<close> case of \<^verbatim>\<open>Run\<close>'s \<^verbatim>\<open>select\<close> (pipeline.go, lines 108-115): the sink is
  closed first; an error of either \<^verbatim>\<open>Close\<close> is returned at once. \<open>done_outcome\<close>
  gives the \<^verbatim>\<open>Close\<close> calls made and the result returned.
\<close>

definition done_outcome ::
  "'a Pipeline \<Rightarrow> 'a Sink \<Rightarrow> 'a Message list \<Rightarrow> call list \<times> error option" where
  "done_outcome p sk ws =
     (case Close sk ws of
        Some e \<Rightarrow> ([SinkClose], Some (Wrap ''close sink'' e))
      | None \<Rightarrow>
          (case Source_Close (source p) of
             Some e \<Rightarrow> ([SinkClose, SourceClose], Some (Wrap ''close source'' e))
           | None \<Rightarrow> ([SinkClose, SourceClose], None)))"

definition complete :: "'a Pipeline \<Rightarrow> 'a Sink \<Rightarrow> 'a state \<Rightarrow> 'a state" where
  "complete p sk s =
     (case done_outcome p sk (written s) of
        (cl, r) \<Rightarrow> s\<lparr>closes := closes s @ cl, drv := Returned r\<rparr>)"

text \<open>
  One move; \<open>None\<close> when it is not enabled.
  \<^item> \<open>SrcRecv\<close>, \<open>SrcSend\<close>, \<open>SrcAbort\<close>: the channel source's loop (source/channel.go,
    lines 27-45); the last two also serve the sends of the other sources.
  \<^item> \<open>SrcTick\<close>: the \<^verbatim>\<open>ticker.C\<close> case of the timer source (lines 44-50 of its file).
  \<^item> \<open>SrcPoll\<close>: \<^verbatim>\<open>h.poll\<close>, either the first one, straight after \<^verbatim>\<open>time.NewTicker\<close>
    (source/http.go, lines 58-62), or one on a tick (line 69). A cancelled send inside
    \<^verbatim>\<open>poll\<close> returns to the loop (lines 114-117) instead of ending the goroutine.
  \<^item> \<open>OpRecv i\<close>: operator \<open>i\<close> takes a message from \<^verbatim>\<open>range in\<close>, checks \<^verbatim>\<open>ctx.Done()\<close>
    and applies its function; \<open>OpSend i\<close> and \<open>OpAbort i\<close> are the two cases of its inner
    \<^verbatim>\<open>select\<close> (pipeline.go, lines 162-173 and 191-203).
  \<^item> \<open>ConsRecv\<close>: the consumer takes a message and calls \<^verbatim>\<open>Write\<close>; \<open>ConsSend\<close> and
    \<open>ConsAbort\<close> are the cases of its \<^verbatim>\<open>select\<close> (lines 89-96).
  \<^item> \<open>WaitClose\<close>: \<^verbatim>\<open>wg.Wait()\<close> returns and \<^verbatim>\<open>done\<close> is closed (lines 102-105).
  \<^item> \<open>DrvDone\<close>, \<open>DrvCancel\<close>, \<open>DrvErr\<close>: the three cases of \<^verbatim>\<open>Run\<close>'s \<^verbatim>\<open>select\<close>
    (lines 107-120).
\<close>

fun act :: "'a Pipeline \<Rightarrow> action \<Rightarrow> 'a state \<Rightarrow> 'a state option" where
  "act p (Cancel r) s =
     (case cancelled s of None \<Rightarrow> Some (s\<lparr>cancelled := Some r\<rparr>) | Some r' \<Rightarrow> None)"
| "act p SrcRecv s =
     (case source p of
        ChannelSource vs cl \<Rightarrow>
          (case src s of
             SIdle \<Rightarrow>
               (case feed s of
                  v # rest \<Rightarrow> Some (s\<lparr>feed := rest, src := SSending (channel_msg v)\<rparr>)
                | [] \<Rightarrow> if cl then Some (finish_source s) else None)
           | _ \<Rightarrow> None)
      | _ \<Rightarrow> None)"
| "act p (SrcTick now1 now2) s =
     (case source p of
        CronSource interval generator \<Rightarrow>
          (case src s of
             SIdle \<Rightarrow> Some (s\<lparr>src := SSending (cron_msg now1 now2 (generator (calls s))),
                              calls := Suc (calls s)\<rparr>)
           | _ \<Rightarrow> None)
      | _ \<Rightarrow> None)"
| "act p (SrcPoll r now) s =
     (case source p of
        HTTPSource url interval parser \<Rightarrow>
          (let polled = (case poll_msg url parser r now of
                           None \<Rightarrow> s\<lparr>src := SIdle\<rparr>
                         | Some m \<Rightarrow> s\<lparr>src := SSending m\<rparr>)
           in case src s of
                SStart \<Rightarrow> if sint interval \<le> 0 then Some (s\<lparr>src := SPanic\<rparr>) else Some polled
              | SIdle \<Rightarrow> Some polled
              | _ \<Rightarrow> None)
      | _ \<Rightarrow> None)"
| "act p SrcSend s =
     (case src s of
        SSending m \<Rightarrow>
          if can_send (chans s ! 0)
          then Some (s\<lparr>src := SIdle, chans := (chans s)[0 := send m (chans s ! 0)]\<rparr>)
          else None
      | _ \<Rightarrow> None)"
| "act p SrcAbort s =
     (if cancelled s = None then None
      else (case src s of
              SIdle \<Rightarrow> Some (finish_source s)
            | SSending m \<Rightarrow>
                (case source p of
                   HTTPSource url interval parser \<Rightarrow> Some (s\<lparr>src := SIdle\<rparr>)
                 | _ \<Rightarrow> Some (finish_source s))
            | _ \<Rightarrow> None))"
| "act p (OpRecv i) s =
     (if i < length (procs s) \<and> i < length (operators p) then
        (case procs s ! i of
           OIdle \<Rightarrow>
             (case recv (chans s ! i) of
                None \<Rightarrow> None
              | Some (None, c) \<Rightarrow> Some (finish_op i s)
              | Some (Some m, c) \<Rightarrow>
                  (let s1 = s\<lparr>chans := (chans s)[i := c]\<rparr>
                   in if cancelled s \<noteq> None then Some (finish_op i s1)
                      else (case operators p ! i of
                              MapOperator fn \<Rightarrow>
                                Some (s1\<lparr>procs := (procs s)[i := OSending (m\<lparr>Value := fn (Value m)\<rparr>)]\<rparr>)
                            | FilterOperator fn \<Rightarrow>
                                if fn (Value m)
                                then Some (s1\<lparr>procs := (procs s)[i := OSending m]\<rparr>)
                                else Some s1)))
         | _ \<Rightarrow> None)
      else None)"
| "act p (OpSend i) s =
     (if i < length (procs s) then
        (case procs s ! i of
           OSending m \<Rightarrow>
             if can_send (chans s ! Suc i)
             then Some (s\<lparr>procs := (procs s)[i := OIdle],
                          chans := (chans s)[Suc i := send m (chans s ! Suc i)]\<rparr>)
             else None
         | _ \<Rightarrow> None)
      else None)"
| "act p (OpAbort i) s =
     (if i < length (procs s) \<and> cancelled s \<noteq> None then
        (case procs s ! i of OSending m \<Rightarrow> Some (finish_op i s) | _ \<Rightarrow> None)
      else None)"
| "act p ConsRecv s =
     (case sink p of
        None \<Rightarrow> None
      | Some sk \<Rightarrow>
          (case cons s of
             CIdle \<Rightarrow>
               (case recv (chans s ! length (procs s)) of
                  None \<Rightarrow> None
                | Some (None, c) \<Rightarrow> Some (s\<lparr>cons := CDone\<rparr>)
                | Some (Some m, c) \<Rightarrow>
                    Some (s\<lparr>chans := (chans s)[length (procs s) := c],
                            written := written s @ [m],
                            cons := (case Write sk (written s) m of
                                       None \<Rightarrow> CIdle
                                     | Some e \<Rightarrow> CSending (Wrap ''sink write'' e))\<rparr>))
           | _ \<Rightarrow> None))"
| "act p ConsSend s =
     (case cons s of
        CSending e \<Rightarrow>
          if can_send (errs s) then Some (s\<lparr>cons := CIdle, errs := send e (errs s)\<rparr>)
          else None
      | _ \<Rightarrow> None)"
| "act p ConsAbort s =
     (if cancelled s = None then None
      else (case cons s of CSending e \<Rightarrow> Some (s\<lparr>cons := CDone\<rparr>) | _ \<Rightarrow> None))"
| "act p WaitClose s =
     (case cons s of
        CDone \<Rightarrow> if done_closed s then None else Some (s\<lparr>done_closed := True\<rparr>)
      | _ \<Rightarrow> None)"
| "act p DrvDone s =
     (case drv s of
        Waiting \<Rightarrow>
          (if done_closed s
           then (case sink p of None \<Rightarrow> None | Some sk \<Rightarrow> Some (complete p sk s))
           else None)
      | Returned r \<Rightarrow> None)"
| "act p DrvCancel s =
     (case drv s of
        Waiting \<Rightarrow>
          (case cancelled s of None \<Rightarrow> None | Some r \<Rightarrow> Some (s\<lparr>drv := Returned (Some r)\<rparr>))
      | Returned r \<Rightarrow> None)"
| "act p DrvErr s =
     (case drv s of
        Waiting \<Rightarrow>
          (case recv (errs s) of
             Some (Some e, c) \<Rightarrow> Some (s\<lparr>errs := c, drv := Returned (Some e)\<rparr>)
           | _ \<Rightarrow> None)
      | Returned r \<Rightarrow> None)"

text \<open>A panic ends the process: nothing moves after it.\<close>

definition step :: "'a Pipeline \<Rightarrow> action \<Rightarrow> 'a state \<Rightarrow> 'a state option" where
  "step p a s = (case src s of SPanic \<Rightarrow> None | _ \<Rightarrow> act p a s)"

fun exec :: "'a Pipeline \<Rightarrow> action list \<Rightarrow> 'a state \<Rightarrow> 'a state option" where
  "exec p [] s = Some s"
| "exec p (a # as) s = (case step p a s of None \<Rightarrow> None | Some s' \<Rightarrow> exec p as s')"

text \<open>
  \<open>final p sched\<close>: the state after \<^verbatim>\<open>p.Run(ctx)\<close> got past its set-up and took the
  moves of \<open>sched\<close> in order; \<open>None\<close> when \<^verbatim>\<open>Run\<close> returned from its set-up or a move
  of the schedule is not enabled when its turn comes. \<open>reach p sched s\<close> names the state.
\<close>

definition final :: "'a Pipeline \<Rightarrow> action list \<Rightarrow> 'a state option" where
  "final p sched = (case snd (Run_start p) of Inl e \<Rightarrow> None | Inr s0 \<Rightarrow> exec p sched s0)"

definition reach :: "'a Pipeline \<Rightarrow> action list \<Rightarrow> 'a state \<Rightarrow> bool" where
  "reach p sched s = (final p sched = Some s)"

text \<open>
  What \<^verbatim>\<open>p.Run(ctx)\<close> has returned once the moves of a schedule have been taken: \<open>None\<close>
  when the schedule cannot be taken or \<^verbatim>\<open>Run\<close> is still in its \<^verbatim>\<open>select\<close>.
\<close>

definition Run :: "'a Pipeline \<Rightarrow> action list \<Rightarrow> error option option" where
  "Run p sched =
     (case snd (Run_start p) of
        Inl e \<Rightarrow> Some (Some e)
      | Inr s0 \<Rightarrow>
          (case exec p sched s0 of
             None \<Rightarrow> None
           | Some s \<Rightarrow> (case drv s of Waiting \<Rightarrow> None | Returned r \<Rightarrow> Some r)))"

section \<open>Observations and invariants\<close>

text \<open>What a goroutine holds: the message whose send it is blocked in, if any.\<close>

fun sdone :: "'a sproc \<Rightarrow> bool" where
  "sdone SDone = True"
| "sdone _ = False"

fun odone :: "'a oproc \<Rightarrow> bool" where
  "odone ODone = True"
| "odone _ = False"

fun sheld :: "'a sproc \<Rightarrow> 'a Message list" where
  "sheld (SSending m) = [m]"
| "sheld _ = []"

fun held :: "'a oproc \<Rightarrow> 'a Message list" where
  "held (OSending m) = [m]"
| "held _ = []"

text \<open>
  The shape every state of a run has: one channel more than operators, one forwarder per
  operator, positive capacities, and a channel closed exactly when its producer returned.
\<close>

definition wf :: "'a Pipeline \<Rightarrow> 'a state \<Rightarrow> bool" where
  "wf p s \<longleftrightarrow>
     length (chans s) = Suc (length (operators p)) \<and>
     length (procs s) = length (operators p) \<and>
     (\<forall>k < length (chans s). 0 < cap (chans s ! k)) \<and>
     (closed (chans s ! 0) \<longleftrightarrow> sdone (src s)) \<and>
     (\<forall>i < length (operators p). closed (chans s ! Suc i) \<longleftrightarrow> odone (procs s ! i))"

text \<open>
  A property \<open>P\<close> of messages holds of every message of a state: those ever sent on a
  channel, those held by a goroutine, and those passed to the sink.
\<close>

definition chan_ok :: "('m \<Rightarrow> bool) \<Rightarrow> 'm chan \<Rightarrow> bool" where
  "chan_ok P c \<longleftrightarrow> list_all P (taken c) \<and> list_all P (buf c)"

definition msgs_ok :: "('a Message \<Rightarrow> bool) \<Rightarrow> 'a state \<Rightarrow> bool" where
  "msgs_ok P s \<longleftrightarrow>
     list_all (chan_ok P) (chans s) \<and> list_all P (sheld (src s)) \<and>
     list_all (\<lambda>q. list_all P (held q)) (procs s) \<and> list_all P (written s)"

text \<open>
  \<open>emits sr P\<close>: every message the source \<open>sr\<close> can build has \<open>P\<close>;
  \<open>value_blind P\<close>: \<open>P\<close> does not look at the value of a message.
\<close>

fun emits :: "'a Source \<Rightarrow> ('a Message \<Rightarrow> bool) \<Rightarrow> bool" where
  "emits (ChannelSource vs cl) P = (\<forall>v. P (channel_msg v))"
| "emits (CronSource interval generator) P = (\<forall>now1 now2 v. P (cron_msg now1 now2 v))"
| "emits (HTTPSource url interval parser) P =
     (\<forall>r now m. poll_msg url parser r now = Some m \<longrightarrow> P m)"

definition value_blind :: "('a Message \<Rightarrow> bool) \<Rightarrow> bool" where
  "value_blind P \<longleftrightarrow> (\<forall>m v. P m \<longrightarrow> P (m\<lparr>Value := v\<rparr>))"

definition all_msgs :: "'a state \<Rightarrow> 'a Message set" where
  "all_msgs s =
     (\<Union>c \<in> set (chans s). set (taken c) \<union> set (buf c)) \<union> set (sheld (src s)) \<union>
     (\<Union>q \<in> set (procs s). set (held q)) \<union> set (written s)"

text \<open>
  \<open>stages L cs qs\<close>: the relation \<open>L\<close> holds of every operator \<open>i\<close>, between its input
  channel, its forwarder and its output channel.
\<close>

definition stages :: "(nat \<Rightarrow> 'm chan \<Rightarrow> 'q \<Rightarrow> 'm chan \<Rightarrow> bool) \<Rightarrow> 'm chan list \<Rightarrow> 'q list \<Rightarrow> bool" where
  "stages L cs qs \<longleftrightarrow> (\<forall>i < length qs. L i (cs ! i) (qs ! i) (cs ! Suc i))"

text \<open>What an operator makes of a sequence of messages.\<close>

fun apply_op :: "'a Operator \<Rightarrow> 'a Message list \<Rightarrow> 'a Message list" where
  "apply_op (MapOperator fn) ms = map (\<lambda>m. m\<lparr>Value := fn (Value m)\<rparr>) ms"
| "apply_op (FilterOperator fn) ms = filter (\<lambda>m. fn (Value m)) ms"

text \<open>
  While the context is not cancelled, an operator has forwarded, or holds in its pending
  send, exactly the image of what it has received, and it has returned only after its
  input was drained and closed.
\<close>

definition link :: "'a Operator list \<Rightarrow> nat \<Rightarrow> 'a Message chan \<Rightarrow> 'a oproc \<Rightarrow> 'a Message chan \<Rightarrow> bool" where
  "link ops i cin q cout \<longleftrightarrow>
     sent cout @ held q = apply_op (ops ! i) (taken cin) \<and>
     (odone q \<longrightarrow> buf cin = [] \<and> closed cin)"

text \<open>
  The invariant of a run: \<^verbatim>\<open>done\<close> is closed only after the consumer returned, the sink
  was passed exactly what the consumer received, and, while the context is not cancelled,
  every stage is linked as above, a returned producer has emptied its feed, a returned
  consumer has drained its channel, and the channel source has emitted its feed in order.
\<close>

definition nc_inv :: "'a Pipeline \<Rightarrow> 'a state \<Rightarrow> bool" where
  "nc_inv p s \<longleftrightarrow>
     (done_closed s \<longrightarrow> cons s = CDone) \<and>
     written s = taken (chans s ! length (procs s)) \<and>
     (cancelled s = None \<longrightarrow>
        stages (link (operators p)) (chans s) (procs s) \<and>
        (sdone (src s) \<longrightarrow> feed s = []) \<and>
        (cons s = CDone \<longrightarrow>
           buf (chans s ! length (procs s)) = [] \<and> closed (chans s ! length (procs s))) \<and>
        (\<forall>vs cl. source p = ChannelSource vs cl \<longrightarrow>
           map channel_msg vs = sent (chans s ! 0) @ sheld (src s) @ map channel_msg (feed s)))"

text \<open>
  The errors the consumer has met: one wrapped error for each failed \<^verbatim>\<open>Write\<close>, in the
  order of the calls. \<open>cpend\<close> is the error the consumer is about to send.
\<close>

fun write_errs :: "'a Sink \<Rightarrow> 'a Message list \<Rightarrow> 'a Message list \<Rightarrow> error list" where
  "write_errs sk h [] = []"
| "write_errs sk h (m # ms) =
     (case Write sk h m of None \<Rightarrow> [] | Some e \<Rightarrow> [Wrap ''sink write'' e])
     @ write_errs sk (h @ [m]) ms"

fun cpend :: "cproc \<Rightarrow> error list" where
  "cpend (CSending e) = [e]"
| "cpend _ = []"

text \<open>
  How \<^verbatim>\<open>Run\<close> stands: what went through \<^verbatim>\<open>errChan\<close> are the first write errors, in
  order; while \<^verbatim>\<open>Run\<close> waits it has closed nothing and read no error; once it has
  returned, it did so with the first write error, or with the cancellation reason, in
  both cases closing nothing, or from the \<^verbatim>\<open>done\<close> case with the outcome of its closes.
\<close>

definition drv_inv :: "'a Pipeline \<Rightarrow> 'a Sink \<Rightarrow> 'a state \<Rightarrow> bool" where
  "drv_inv p sk s \<longleftrightarrow>
     (cons s \<noteq> CDone \<longrightarrow> sent (errs s) @ cpend (cons s) = write_errs sk [] (written s)) \<and>
     (cons s = CDone \<longrightarrow> prefix (sent (errs s)) (write_errs sk [] (written s))) \<and>
     (drv s = Waiting \<longrightarrow> closes s = [] \<and> taken (errs s) = []) \<and>
     (\<forall>r. drv s = Returned r \<longrightarrow>
        (closes s = [] \<and> (\<exists>e. r = Some e \<and> taken (errs s) = [e])) \<or>
        (closes s = [] \<and> taken (errs s) = [] \<and> (\<exists>e. r = Some e \<and> cancelled s = Some e)) \<or>
        (done_closed s \<and> taken (errs s) = [] \<and> (closes s, r) = done_outcome p sk (written s)))"

text \<open>The moves of the source's producer, and those of the operators' forwarders.\<close>

definition is_src_act :: "action \<Rightarrow> bool" where
  "is_src_act a = (case a of SrcRecv \<Rightarrow> True | SrcTick n1 n2 \<Rightarrow> True | SrcPoll r n \<Rightarrow> True
     | SrcSend \<Rightarrow> True | SrcAbort \<Rightarrow> True | _ \<Rightarrow> False)"

definition is_op_act :: "action \<Rightarrow> bool" where
  "is_op_act a = (case a of OpRecv i \<Rightarrow> True | OpSend i \<Rightarrow> True | OpAbort i \<Rightarrow> True | _ \<Rightarrow> False)"


text \<open>
  The weight of a state bounds the moves an uncancelled run on a channel source can still
  take: every message weighs the moves it has ahead of it, from the feed down to the sink,
  and every goroutine that has not returned weighs one more.
\<close>

fun wchans :: "'m chan list \<Rightarrow> nat" where
  "wchans [] = 0"
| "wchans (c # cs) = length (buf c) * (2 * length cs + 2) + wchans cs"

fun wproc :: "nat \<Rightarrow> 'a oproc \<Rightarrow> nat" where
  "wproc k OIdle = 1"
| "wproc k (OSending m) = 2 * k + 4"
| "wproc k ODone = 0"

fun wprocs :: "'a oproc list \<Rightarrow> nat" where
  "wprocs [] = 0"
| "wprocs (q # qs) = wproc (length qs) q + wprocs qs"

fun wsrc :: "nat \<Rightarrow> 'a sproc \<Rightarrow> nat" where
  "wsrc n (SSending m) = 2 * n + 4"
| "wsrc n SDone = 0"
| "wsrc n SPanic = 0"
| "wsrc n _ = 1"

fun wcons :: "cproc \<Rightarrow> nat" where
  "wcons CIdle = 1"
| "wcons (CSending e) = 2"
| "wcons CDone = 0"

definition weight :: "'a state \<Rightarrow> nat" where
  "weight s =
     length (feed s) * (2 * length (procs s) + 4) + wsrc (length (procs s)) (src s) +
     wchans (chans s) + wprocs (procs s) + wcons (cons s) +
     (if done_closed s then 0 else 1) + (case drv s of Waiting \<Rightarrow> 1 | Returned r \<Rightarrow> 0)"


text \<open>The producer of a channel source is never about to start a ticker, and never panics.\<close>

fun srunning :: "'a sproc \<Rightarrow> bool" where
  "srunning SStart = False"
| "srunning SPanic = False"
| "srunning _ = True"


section \<open>Example pipelines\<close>

text \<open>
  A sink that accepts everything, and the operators and input of \<^verbatim>\<open>TestPipelineBasic\<close>
  on the shipped channel source (the test itself feeds them through its own mock source).
\<close>

definition ok_sink :: "int Sink" where
  "ok_sink = \<lparr>Write = (\<lambda>h m. None), Close = (\<lambda>h. None)\<rparr>"

definition test_pipeline :: "int Pipeline" where
  "test_pipeline =
     To ok_sink (Map (\<lambda>n. n * 2) (Filter (\<lambda>n. n mod 2 = 0)
       (New ''test'' (ChannelSource [1, 2, 3, 4, 5] True))))"

text \<open>One complete schedule of it: each goroutine runs to its end before the next starts.\<close>

definition test_schedule :: "action list" where
  "test_schedule =
     [SrcRecv, SrcSend, SrcRecv, SrcSend, SrcRecv, SrcSend, SrcRecv, SrcSend, SrcRecv, SrcSend,
      SrcRecv,
      OpRecv 0, OpRecv 0, OpSend 0, OpRecv 0, OpRecv 0, OpSend 0, OpRecv 0, OpRecv 0,
      OpRecv 1, OpSend 1, OpRecv 1, OpSend 1, OpRecv 1,
      ConsRecv, ConsRecv, ConsRecv, WaitClose, DrvDone]"

text \<open>An HTTP poll source with interval 0 and a pipeline with a buffer size of 1.\<close>

definition zero_poll_pipeline :: "string Pipeline" where
  "zero_poll_pipeline =
     To \<lparr>Write = (\<lambda>h m. None), Close = (\<lambda>h. None)\<rparr>
       (New ''poll'' (HTTPSource ''http://localhost/data'' 0 (\<lambda>b. Inr b)))"

definition small_buffer_pipeline :: "int Pipeline" where
  "small_buffer_pipeline =
     To ok_sink (Map (\<lambda>n. n + 1) (WithBufferSize 1 (New ''small'' (ChannelSource [7] True))))"


definition write_fails_pipeline :: "int Pipeline" where
  "write_fails_pipeline =
     To \<lparr>Write = (\<lambda>h m. Some (Err ''boom'')), Close = (\<lambda>h. None)\<rparr>
       (New ''failing'' (ChannelSource [7] True))"


definition write_fails_schedule :: "action list" where
  "write_fails_schedule = [SrcRecv, SrcSend, SrcRecv, ConsRecv, ConsSend, ConsRecv, WaitClose]"

section \<open>The default JSON marshaler and parser\<close>

text \<open>
  Modelled from the documentation of Go's \<^verbatim>\<open>encoding/json\<close> and \<^verbatim>\<open>math\<close> packages, which
  are not code of this repository. The payload type \<^verbatim>\<open>T\<close> ranges over three Go types:
  \<^verbatim>\<open>bool\<close>, \<^verbatim>\<open>int64\<close> and \<^verbatim>\<open>float64\<close>, a \<^verbatim>\<open>float64\<close> being given by its IEEE 754 bits
  (\<^verbatim>\<open>math.Float64bits\<close>).
\<close>

datatype payload = PBool bool | PInt "64 word" | PFloat "64 word"



text \<open>
  \<^verbatim>\<open>math.IsNaN(x) || math.IsInf(x, 0)\<close>: the eleven exponent bits of \<open>x\<close> are all ones.
\<close>

definition unsupported :: "64 word \<Rightarrow> bool" where
  "unsupported x = (take_bit 11 (drop_bit 52 x) = (2047 :: 64 word))"

text \<open>
  \<^verbatim>\<open>json.Marshal\<close>, as documented: "Boolean values encode as JSON booleans. Floating
  point, integer, and Number values encode as JSON numbers. NaN and +/-Inf values will
  return an UnsupportedValueError." The text of a finite float is what
  \<^verbatim>\<open>strconv.FormatFloat\<close> makes of it; that function is not modelled and is a parameter.
\<close>

definition json_Marshal :: "(64 word \<Rightarrow> string) \<Rightarrow> payload \<Rightarrow> error + string" where
  "json_Marshal FormatFloat v =
     (case v of
        PBool b \<Rightarrow> Inr (if b then ''true'' else ''false'')
      | PInt i \<Rightarrow> Inr (show_int (sint i))
      | PFloat x \<Rightarrow>
          if unsupported x then Inl (Err ''json: unsupported value'')
          else Inr (FormatFloat x))"








text \<open>
  The HTTP sink's default marshaler (sink/http.go, lines 32-34) and the HTTP source's
  default parser (source/http.go, lines 28-32): the two library calls. \<open>round_trip\<close> is
  the round trip of one value: the marshaler gives a text and the parser, at the value's
  own type, gives the value back from it.
\<close>

definition sink_default_marshaler :: "(64 word \<Rightarrow> string) \<Rightarrow> payload \<Rightarrow> error + string" where
  "sink_default_marshaler FormatFloat v = json_Marshal FormatFloat v"



section \<open>How each move changes the state\<close>

lemma act_Cancel:
  "act p (Cancel r) s = Some s' \<Longrightarrow> cancelled s = None \<and> s' = s\<lparr>cancelled := Some r\<rparr>"
  by (auto split: option.splits)

lemma act_SrcRecv:
  "act p SrcRecv s = Some s' \<Longrightarrow>
     \<exists>vs cl. source p = ChannelSource vs cl \<and> src s = SIdle \<and>
       ((\<exists>v rest. feed s = v # rest \<and> s' = s\<lparr>feed := rest, src := SSending (channel_msg v)\<rparr>) \<or>
        (feed s = [] \<and> cl \<and> s' = s\<lparr>src := SDone, chans := (chans s)[0 := close (chans s ! 0)]\<rparr>))"
  by (auto simp: finish_source_def split: Source.splits sproc.splits list.splits if_splits)

lemma act_SrcTick:
  "act p (SrcTick n1 n2) s = Some s' \<Longrightarrow>
     \<exists>iv g. source p = CronSource iv g \<and> src s = SIdle \<and>
       s' = s\<lparr>src := SSending (cron_msg n1 n2 (g (calls s))), calls := Suc (calls s)\<rparr>"
  by (auto split: Source.splits sproc.splits)

lemma act_SrcPoll:
  "act p (SrcPoll r now) s = Some s' \<Longrightarrow>
     \<exists>url iv parser. source p = HTTPSource url iv parser \<and>
       ((src s = SStart \<and> sint iv \<le> 0 \<and> s' = s\<lparr>src := SPanic\<rparr>) \<or>
        (((src s = SStart \<and> 0 < sint iv) \<or> src s = SIdle) \<and>
         ((poll_msg url parser r now = None \<and> s' = s\<lparr>src := SIdle\<rparr>) \<or>
          (\<exists>m. poll_msg url parser r now = Some m \<and> s' = s\<lparr>src := SSending m\<rparr>))))"
  by (auto simp: Let_def split: Source.splits sproc.splits option.splits if_splits)

lemma act_SrcSend:
  "act p SrcSend s = Some s' \<Longrightarrow>
     \<exists>m. src s = SSending m \<and> can_send (chans s ! 0) \<and>
       s' = s\<lparr>src := SIdle, chans := (chans s)[0 := send m (chans s ! 0)]\<rparr>"
  by (auto split: sproc.splits if_splits)

lemma act_SrcAbort:
  "act p SrcAbort s = Some s' \<Longrightarrow>
     cancelled s \<noteq> None \<and>
     (((src s = SIdle \<or> (\<exists>m. src s = SSending m \<and> (\<forall>url iv parser. source p \<noteq> HTTPSource url iv parser))) \<and>
        s' = s\<lparr>src := SDone, chans := (chans s)[0 := close (chans s ! 0)]\<rparr>) \<or>
      ((\<exists>m. src s = SSending m) \<and> (\<exists>url iv parser. source p = HTTPSource url iv parser) \<and>
        s' = s\<lparr>src := SIdle\<rparr>))"
  by (auto simp: finish_source_def split: Source.splits sproc.splits if_splits)

lemma act_OpRecv:
  "act p (OpRecv i) s = Some s' \<Longrightarrow>
     i < length (procs s) \<and> i < length (operators p) \<and> procs s ! i = OIdle \<and>
     ((buf (chans s ! i) = [] \<and> closed (chans s ! i) \<and>
       s' = s\<lparr>procs := (procs s)[i := ODone],
              chans := (chans s)[Suc i := close (chans s ! Suc i)]\<rparr>) \<or>
      (\<exists>m ms. buf (chans s ! i) = m # ms \<and>
         (let cs = (chans s)[i := (chans s ! i)\<lparr>buf := ms, taken := taken (chans s ! i) @ [m]\<rparr>] in
          (cancelled s \<noteq> None \<and>
           s' = s\<lparr>chans := cs[Suc i := close (cs ! Suc i)], procs := (procs s)[i := ODone]\<rparr>) \<or>
          (cancelled s = None \<and>
           (\<exists>fn. operators p ! i = MapOperator fn \<and>
              s' = s\<lparr>chans := cs, procs := (procs s)[i := OSending (m\<lparr>Value := fn (Value m)\<rparr>)]\<rparr>)) \<or>
          (cancelled s = None \<and>
           (\<exists>fn. operators p ! i = FilterOperator fn \<and> fn (Value m) \<and>
              s' = s\<lparr>chans := cs, procs := (procs s)[i := OSending m]\<rparr>)) \<or>
          (cancelled s = None \<and>
           (\<exists>fn. operators p ! i = FilterOperator fn \<and> \<not> fn (Value m) \<and>
              s' = s\<lparr>chans := cs\<rparr>)))))"
  by (auto simp: finish_op_def recv_def Let_def
      split: oproc.splits option.splits if_splits list.splits Operator.splits)


lemma act_OpSend:
  "act p (OpSend i) s = Some s' \<Longrightarrow>
     i < length (procs s) \<and>
     (\<exists>m. procs s ! i = OSending m \<and> can_send (chans s ! Suc i) \<and>
        s' = s\<lparr>procs := (procs s)[i := OIdle],
               chans := (chans s)[Suc i := send m (chans s ! Suc i)]\<rparr>)"
  by (auto split: oproc.splits if_splits)

lemma act_OpAbort:
  "act p (OpAbort i) s = Some s' \<Longrightarrow>
     i < length (procs s) \<and> cancelled s \<noteq> None \<and>
     (\<exists>m. procs s ! i = OSending m \<and>
        s' = s\<lparr>procs := (procs s)[i := ODone],
               chans := (chans s)[Suc i := close (chans s ! Suc i)]\<rparr>)"
  by (auto simp: finish_op_def split: oproc.splits if_splits)

lemma act_ConsRecv:
  "act p ConsRecv s = Some s' \<Longrightarrow>
     (\<exists>sk. sink p = Some sk \<and> cons s = CIdle \<and>
       (let n = length (procs s) in
        (buf (chans s ! n) = [] \<and> closed (chans s ! n) \<and> s' = s\<lparr>cons := CDone\<rparr>) \<or>
        (\<exists>m ms. buf (chans s ! n) = m # ms \<and>
           s' = s\<lparr>chans := (chans s)[n := (chans s ! n)\<lparr>buf := ms, taken := taken (chans s ! n) @ [m]\<rparr>],
                  written := written s @ [m],
                  cons := (case Write sk (written s) m of
                             None \<Rightarrow> CIdle
                           | Some e \<Rightarrow> CSending (Wrap ''sink write'' e))\<rparr>)))"
  by (auto simp: recv_def Let_def split: cproc.splits option.splits if_splits list.splits)

lemma act_ConsSend:
  "act p ConsSend s = Some s' \<Longrightarrow>
     \<exists>e. cons s = CSending e \<and> can_send (errs s) \<and>
       s' = s\<lparr>cons := CIdle, errs := send e (errs s)\<rparr>"
  by (auto split: cproc.splits if_splits)

lemma act_ConsAbort:
  "act p ConsAbort s = Some s' \<Longrightarrow>
     cancelled s \<noteq> None \<and> (\<exists>e. cons s = CSending e) \<and> s' = s\<lparr>cons := CDone\<rparr>"
  by (auto split: cproc.splits if_splits)

lemma act_WaitClose:
  "act p WaitClose s = Some s' \<Longrightarrow>
     cons s = CDone \<and> \<not> done_closed s \<and> s' = s\<lparr>done_closed := True\<rparr>"
  by (auto split: cproc.splits if_splits)

lemma act_DrvDone:
  "act p DrvDone s = Some s' \<Longrightarrow>
     drv s = Waiting \<and> done_closed s \<and> (\<exists>sk. sink p = Some sk \<and> s' = complete p sk s)"
  by (auto split: driver.splits option.splits if_splits)

lemma act_DrvCancel:
  "act p DrvCancel s = Some s' \<Longrightarrow>
     drv s = Waiting \<and> (\<exists>r. cancelled s = Some r \<and> s' = s\<lparr>drv := Returned (Some r)\<rparr>)"
  by (auto split: driver.splits option.splits)

lemma act_DrvErr:
  "act p DrvErr s = Some s' \<Longrightarrow>
     drv s = Waiting \<and>
     (\<exists>e es. buf (errs s) = e # es \<and>
        s' = s\<lparr>errs := (errs s)\<lparr>buf := es, taken := taken (errs s) @ [e]\<rparr>,
               drv := Returned (Some e)\<rparr>)"
  by (auto simp: recv_def split: driver.splits option.splits list.splits if_splits)

lemmas act_dest = act_Cancel act_SrcRecv act_SrcTick act_SrcPoll act_SrcSend act_SrcAbort
  act_OpRecv act_OpSend act_OpAbort act_ConsRecv act_ConsSend act_ConsAbort act_WaitClose
  act_DrvDone act_DrvCancel act_DrvErr

declare act.simps [simp del]

lemma step_act: "step p a s = Some s' \<Longrightarrow> act p a s = Some s' \<and> src s \<noteq> SPanic"
  by (auto simp: step_def split: sproc.splits)

lemma complete_fields [simp]:
  "cancelled (complete p sk s) = cancelled s" "feed (complete p sk s) = feed s"
  "calls (complete p sk s) = calls s" "src (complete p sk s) = src s"
  "chans (complete p sk s) = chans s" "procs (complete p sk s) = procs s"
  "cons (complete p sk s) = cons s" "written (complete p sk s) = written s"
  "errs (complete p sk s) = errs s" "done_closed (complete p sk s) = done_closed s"
  by (auto simp: complete_def split: prod.splits)

lemma act_OpRecv_cases [consumes 1, case_names closed canc map pass drop]:
  assumes "act p (OpRecv i) s = Some s'"
  obtains
    (closed) "buf (chans s ! i) = []" "closed (chans s ! i)"
       "s' = s\<lparr>procs := (procs s)[i := ODone],
              chans := (chans s)[Suc i := close (chans s ! Suc i)]\<rparr>"
  | (canc) m ms where "buf (chans s ! i) = m # ms" "cancelled s \<noteq> None"
       "s' = s\<lparr>chans := (chans s)[i := (chans s ! i)\<lparr>buf := ms, taken := taken (chans s ! i) @ [m]\<rparr>,
                             Suc i := close (chans s ! Suc i)],
              procs := (procs s)[i := ODone]\<rparr>"
  | (map) m ms fn where "buf (chans s ! i) = m # ms" "cancelled s = None"
       "operators p ! i = MapOperator fn"
       "s' = s\<lparr>chans := (chans s)[i := (chans s ! i)\<lparr>buf := ms, taken := taken (chans s ! i) @ [m]\<rparr>],
              procs := (procs s)[i := OSending (m\<lparr>Value := fn (Value m)\<rparr>)]\<rparr>"
  | (pass) m ms fn where "buf (chans s ! i) = m # ms" "cancelled s = None"
       "operators p ! i = FilterOperator fn" "fn (Value m)"
       "s' = s\<lparr>chans := (chans s)[i := (chans s ! i)\<lparr>buf := ms, taken := taken (chans s ! i) @ [m]\<rparr>],
              procs := (procs s)[i := OSending m]\<rparr>"
  | (drop) m ms fn where "buf (chans s ! i) = m # ms" "cancelled s = None"
       "operators p ! i = FilterOperator fn" "\<not> fn (Value m)"
       "s' = s\<lparr>chans := (chans s)[i := (chans s ! i)\<lparr>buf := ms, taken := taken (chans s ! i) @ [m]\<rparr>]\<rparr>"
proof -
  from act_OpRecv[OF assms] have i: "i < length (procs s)" "i < length (operators p)"
    and q: "procs s ! i = OIdle" by simp_all
  show thesis
  proof (cases "buf (chans s ! i)")
    case Nil
    with assms i q have "closed (chans s ! i)"
      "s' = s\<lparr>procs := (procs s)[i := ODone],
             chans := (chans s)[Suc i := close (chans s ! Suc i)]\<rparr>"
      by (simp_all add: act.simps recv_def finish_op_def split: if_splits)
    with Nil show thesis by (rule closed)
  next
    case (Cons m ms)
    show thesis
    proof (cases "cancelled s = None")
      case False
      with assms i q Cons
      have "s' = s\<lparr>chans := (chans s)[i := (chans s ! i)\<lparr>buf := ms, taken := taken (chans s ! i) @ [m]\<rparr>,
                             Suc i := close (chans s ! Suc i)],
              procs := (procs s)[i := ODone]\<rparr>"
        by (auto simp: act.simps recv_def finish_op_def Let_def)
      with Cons False show thesis by (rule canc)
    next
      case True
      show thesis
      proof (cases "operators p ! i")
        case (MapOperator fn)
        with assms i q Cons True
        have "s' = s\<lparr>chans := (chans s)[i := (chans s ! i)\<lparr>buf := ms, taken := taken (chans s ! i) @ [m]\<rparr>],
              procs := (procs s)[i := OSending (m\<lparr>Value := fn (Value m)\<rparr>)]\<rparr>"
          by (simp add: act.simps recv_def Let_def)
        with Cons True MapOperator show thesis by (rule map)
      next
        case (FilterOperator fn)
        show thesis
        proof (cases "fn (Value m)")
          case True
          with assms i q Cons \<open>cancelled s = None\<close> FilterOperator
          have "s' = s\<lparr>chans := (chans s)[i := (chans s ! i)\<lparr>buf := ms, taken := taken (chans s ! i) @ [m]\<rparr>],
              procs := (procs s)[i := OSending m]\<rparr>"
            by (simp add: act.simps recv_def Let_def)
          with Cons \<open>cancelled s = None\<close> FilterOperator True show thesis by (rule pass)
        next
          case False
          with assms i q Cons \<open>cancelled s = None\<close> FilterOperator
          have "s' = s\<lparr>chans := (chans s)[i := (chans s ! i)\<lparr>buf := ms, taken := taken (chans s ! i) @ [m]\<rparr>]\<rparr>"
            by (simp add: act.simps recv_def Let_def)
          with Cons \<open>cancelled s = None\<close> FilterOperator False show thesis by (rule drop)
        qed
      qed
    qed
  qed
qed



lemma src_act_frame:
  assumes "is_src_act a" and "act p a s = Some s'"
  shows "cons s' = cons s \<and> errs s' = errs s \<and> written s' = written s \<and> drv s' = drv s \<and>
    closes s' = closes s \<and> cancelled s' = cancelled s \<and> done_closed s' = done_closed s \<and>
    procs s' = procs s"
proof (cases a)
  case SrcRecv
  with assms(2) have "act p SrcRecv s = Some s'" by simp
  from act_SrcRecv[OF this] show ?thesis by auto
next
  case (SrcTick n1 n2)
  with assms(2) have "act p (SrcTick n1 n2) s = Some s'" by simp
  from act_SrcTick[OF this] show ?thesis by auto
next
  case (SrcPoll r now)
  with assms(2) have "act p (SrcPoll r now) s = Some s'" by simp
  from act_SrcPoll[OF this] show ?thesis by auto
next
  case SrcSend
  with assms(2) have "act p SrcSend s = Some s'" by simp
  from act_SrcSend[OF this] show ?thesis by auto
next
  case SrcAbort
  with assms(2) have "act p SrcAbort s = Some s'" by simp
  from act_SrcAbort[OF this] show ?thesis by auto
qed (use assms(1) in \<open>simp_all add: is_src_act_def\<close>)

lemma op_act_frame:
  assumes "is_op_act a" and "act p a s = Some s'"
  shows "cons s' = cons s \<and> errs s' = errs s \<and> written s' = written s \<and> drv s' = drv s \<and>
    closes s' = closes s \<and> cancelled s' = cancelled s \<and> done_closed s' = done_closed s \<and>
    src s' = src s \<and> feed s' = feed s \<and> calls s' = calls s"
proof (cases a)
  case (OpRecv i)
  with assms(2) have "act p (OpRecv i) s = Some s'" by simp
  then show ?thesis by (cases rule: act_OpRecv_cases) simp_all
next
  case (OpSend i)
  with assms(2) have "act p (OpSend i) s = Some s'" by simp
  from act_OpSend[OF this] show ?thesis by auto
next
  case (OpAbort i)
  with assms(2) have "act p (OpAbort i) s = Some s'" by simp
  from act_OpAbort[OF this] show ?thesis by auto
qed (use assms(1) in \<open>simp_all add: is_op_act_def\<close>)


lemma start_operators_eq:
  "start_operators ops =
     (replicate (length ops) ProcessCall,
      Inr (replicate (length ops) OIdle, replicate (length ops) (make_chan 100)))"
proof (induction ops)
  case Nil
  then show ?case by simp
next
  case (Cons op ops)
  then show ?case by (cases op) simp_all
qed

lemma Stream_cases:
  "Stream sr = Inr (q, c) \<Longrightarrow> \<not> closed c \<and> 0 < cap c \<and> buf c = [] \<and> taken c = [] \<and> (q = SIdle \<or> q = SStart) "
  by (cases sr) (auto simp: ChannelSource_Stream_def CronSource_Stream_def HTTPSource_Stream_def make_chan_def split: if_splits)

lemma Run_start_Inr:
  assumes "Run_start p = (tr, Inr s0)"
  shows "\<exists>sk q0 c0. sink p = Some sk \<and> Stream (source p) = Inr (q0, c0) \<and>
     s0 = \<lparr>cancelled = None,
           feed = (case source p of ChannelSource vs cl \<Rightarrow> vs | _ \<Rightarrow> []),
           calls = 0, src = q0,
           chans = c0 # replicate (length (operators p)) (make_chan 100),
           procs = replicate (length (operators p)) OIdle, cons = CIdle,
           written = [], errs = errChan p, done_closed = False,
           drv = Waiting, closes = []\<rparr>"
  using assms by (auto simp: Run_start_def start_operators_eq split: option.splits sum.splits)

lemma wf_start:
  assumes "Run_start p = (tr, Inr s0)"
  shows "wf p s0"
proof -
  from Run_start_Inr[OF assms] obtain sk q0 c0 where
    a: "Stream (source p) = Inr (q0, c0)" and
    b: "chans s0 = c0 # replicate (length (operators p)) (make_chan 100)"
       "procs s0 = replicate (length (operators p)) OIdle" "src s0 = q0"
    by auto
  from Stream_cases[OF a] show ?thesis
    by (auto simp: wf_def b nth_Cons make_chan_def split: nat.splits)
qed



lemma wf_act:
  assumes "wf p s" "act p a s = Some s'"
  shows "wf p s'"
proof (cases a)
  case (OpRecv i)
  with assms(2) have "act p (OpRecv i) s = Some s'" by simp
  from assms(1) act_OpRecv[OF this] show ?thesis
    apply (clarsimp simp: wf_def Let_def)
    apply (elim disjE conjE exE)
    apply (auto simp: nth_list_update close_def split: if_splits)
    done
next
  case (OpSend i)
  with assms(2) have "act p (OpSend i) s = Some s'" by simp
  from assms(1) act_OpSend[OF this] show ?thesis
    by (auto simp: wf_def nth_list_update send_def split: if_splits)
next
  case (OpAbort i)
  with assms(2) have "act p (OpAbort i) s = Some s'" by simp
  from assms(1) act_OpAbort[OF this] show ?thesis
    by (auto simp: wf_def nth_list_update close_def split: if_splits)
next
  case ConsRecv
  with assms(2) have "act p ConsRecv s = Some s'" by simp
  from assms(1) act_ConsRecv[OF this] show ?thesis
    apply (clarsimp simp: wf_def Let_def)
    apply (elim disjE conjE exE)
    apply (auto simp: nth_list_update)
    done
next
  case SrcAbort
  with assms(2) have "act p SrcAbort s = Some s'" by simp
  from assms(1) act_SrcAbort[OF this] show ?thesis
    apply (clarsimp simp: wf_def Let_def)
    apply (elim disjE conjE exE)
    apply (auto simp: nth_list_update close_def split: if_splits)
    done
next
  case (SrcPoll r now)
  with assms(2) have "act p (SrcPoll r now) s = Some s'" by simp
  from assms(1) act_SrcPoll[OF this] show ?thesis
    apply (clarsimp simp: wf_def Let_def)
    apply (elim disjE conjE exE)
    apply (auto simp: nth_list_update close_def split: if_splits)
    done
qed (use assms in \<open>auto dest!: act_dest simp: wf_def nth_list_update send_def close_def\<close>)

section \<open>Reachable states\<close>

lemma exec_invariant:
  assumes "exec p sched s0 = Some s" and "I s0"
    and "\<And>a s s'. I s \<Longrightarrow> step p a s = Some s' \<Longrightarrow> I s'"
  shows "I s"
  using assms(1,2)
proof (induction sched arbitrary: s0)
  case Nil
  then show ?case by simp
next
  case (Cons a sched)
  from Cons.prems(1) obtain s1 where s1: "step p a s0 = Some s1" "exec p sched s1 = Some s"
    by (auto split: option.splits)
  from assms(3)[OF Cons.prems(2) s1(1)] have "I s1" .
  from Cons.IH[OF s1(2) this] show ?case .
qed

lemma exec_append:
  "exec p (as @ bs) s = (case exec p as s of None \<Rightarrow> None | Some s' \<Rightarrow> exec p bs s')"
  by (induction as arbitrary: s) (auto split: option.splits)

lemma reach_start:
  assumes "reach p sched s"
  obtains tr s0 where "Run_start p = (tr, Inr s0)" "exec p sched s0 = Some s"
  using assms unfolding reach_def final_def
  by (cases "Run_start p") (auto split: sum.splits)

lemma reach_invariant:
  assumes "reach p sched s"
    and "\<And>tr s0. Run_start p = (tr, Inr s0) \<Longrightarrow> I s0"
    and "\<And>a s s'. I s \<Longrightarrow> step p a s = Some s' \<Longrightarrow> I s'"
  shows "I s"
proof -
  from assms(1) obtain tr s0 where a: "Run_start p = (tr, Inr s0)" "exec p sched s0 = Some s"
    by (rule reach_start)
  show ?thesis
  proof (rule exec_invariant[where I = I and p = p, OF a(2)])
    show "I s0" by (rule assms(2)[OF a(1)])
  next
    fix a s s' assume "I s" "step p a s = Some s'"
    then show "I s'" by (rule assms(3))
  qed
qed

lemma reach_wf:
  assumes "reach p sched s"
  shows "wf p s"
  by (rule reach_invariant[where I = "wf p", OF assms])
     (auto dest: step_act intro: wf_start wf_act)

section \<open>A property of all messages\<close>

lemma list_all_update:
  "list_all Q xs \<Longrightarrow> Q x \<Longrightarrow> list_all Q (xs[i := x])"
  by (induction xs arbitrary: i) (auto split: nat.splits)

lemma list_all_nth: "list_all Q xs \<Longrightarrow> i < length xs \<Longrightarrow> Q (xs ! i)"
  by (simp add: list_all_length)

lemma chan_ok_close: "chan_ok P c \<Longrightarrow> chan_ok P (close c)"
  by (simp add: chan_ok_def close_def)

lemma chan_ok_send: "chan_ok P c \<Longrightarrow> P m \<Longrightarrow> chan_ok P (send m c)"
  by (simp add: chan_ok_def send_def)

lemma chan_ok_pop:
  "chan_ok P c \<Longrightarrow> buf c = m # ms \<Longrightarrow> P m \<and> chan_ok P (c\<lparr>buf := ms, taken := taken c @ [m]\<rparr>)"
  by (simp add: chan_ok_def)

lemma msgs_ok_act:
  assumes "wf p s" "msgs_ok P s" "emits (source p) P" "value_blind P" "act p a s = Some s'"
  shows "msgs_ok P s'"
proof -
  have vb: "\<And>m v. P m \<Longrightarrow> P (m\<lparr>Value := v\<rparr>)"
    using assms(4) by (simp add: value_blind_def)
  have nth: "\<And>k. k < length (chans s) \<Longrightarrow> chan_ok P (chans s ! k)"
    using assms(2) by (simp add: msgs_ok_def list_all_nth)
  have len: "length (chans s) = Suc (length (procs s))"
    using assms(1) by (simp add: wf_def)
  have hd: "\<And>k. k < length (procs s) \<Longrightarrow> list_all P (held (procs s ! k))"
    using assms(2) by (simp add: msgs_ok_def list_all_length)
  show ?thesis
  proof (cases a)
    case (OpRecv i)
    with assms(5) have a: "act p (OpRecv i) s = Some s'" by simp
    from act_OpRecv[OF a] have i: "i < length (procs s)" by simp
    from nth[of i] nth[of "Suc i"] i len
    have ok: "chan_ok P (chans s ! i)" "chan_ok P (chans s ! Suc i)" by simp_all
    from assms(2) act_OpRecv[OF a] ok show ?thesis
      apply (clarsimp simp: msgs_ok_def Let_def)
      apply (elim disjE conjE exE)
      apply (auto intro!: list_all_update chan_ok_close vb dest: chan_ok_pop)
      done
  next
    case (OpSend i)
    with assms(5) have a: "act p (OpSend i) s = Some s'" by simp
    from act_OpSend[OF a] have i: "i < length (procs s)" by simp
    from nth[of "Suc i"] i len have ok: "chan_ok P (chans s ! Suc i)" by simp
    from assms(2) act_OpSend[OF a] ok hd[OF i] show ?thesis
      by (auto simp: msgs_ok_def intro!: list_all_update chan_ok_send)
  next
    case (OpAbort i)
    with assms(5) have a: "act p (OpAbort i) s = Some s'" by simp
    from act_OpAbort[OF a] have i: "i < length (procs s)" by simp
    from nth[of "Suc i"] i len have ok: "chan_ok P (chans s ! Suc i)" by simp
    from assms(2) act_OpAbort[OF a] ok show ?thesis
      by (auto simp: msgs_ok_def intro!: list_all_update chan_ok_close)
  next
    case ConsRecv
    with assms(5) have a: "act p ConsRecv s = Some s'" by simp
    from nth[of "length (procs s)"] len have ok: "chan_ok P (chans s ! length (procs s))" by simp
    from assms(2) act_ConsRecv[OF a] ok show ?thesis
      apply (clarsimp simp: msgs_ok_def Let_def)
      apply (elim disjE conjE exE)
      apply (auto intro!: list_all_update dest: chan_ok_pop)
      done
  next
    case SrcAbort
    with assms(5) have a: "act p SrcAbort s = Some s'" by simp
    from nth[of 0] len have ok: "chan_ok P (chans s ! 0)" by simp
    from assms(2) act_SrcAbort[OF a] ok show ?thesis
      apply (clarsimp simp: msgs_ok_def)
      apply (elim disjE conjE exE)
      apply (auto intro!: list_all_update chan_ok_close)
      done
  next
    case (SrcPoll r now)
    with assms(5) have a: "act p (SrcPoll r now) s = Some s'" by simp
    from assms(2,3) act_SrcPoll[OF a] show ?thesis
      apply (clarsimp simp: msgs_ok_def)
      apply (elim disjE conjE exE)
      apply auto
      done
  next
    case SrcRecv
    with assms(5) have a: "act p SrcRecv s = Some s'" by simp
    from nth[of 0] len have ok: "chan_ok P (chans s ! 0)" by simp
    from assms(2,3) act_SrcRecv[OF a] ok show ?thesis
      apply (clarsimp simp: msgs_ok_def)
      apply (elim disjE conjE exE)
      apply (auto intro!: list_all_update chan_ok_close)
      done
  next
    case SrcSend
    with assms(5) have a: "act p SrcSend s = Some s'" by simp
    from nth[of 0] len have ok: "chan_ok P (chans s ! 0)" by simp
    from assms(2) act_SrcSend[OF a] ok show ?thesis
      by (auto simp: msgs_ok_def intro!: list_all_update chan_ok_send)
  next
    case (SrcTick n1 n2)
    with assms(5) have a: "act p (SrcTick n1 n2) s = Some s'" by simp
    from assms(2,3) act_SrcTick[OF a] show ?thesis
      by (auto simp: msgs_ok_def)
  qed (use assms in \<open>auto dest!: act_dest simp: msgs_ok_def\<close>)
qed

lemma msgs_ok_start:
  assumes "Run_start p = (tr, Inr s0)"
  shows "msgs_ok P s0"
proof -
  from Run_start_Inr[OF assms] obtain sk q0 c0 where
    a: "Stream (source p) = Inr (q0, c0)" and
    b: "chans s0 = c0 # replicate (length (operators p)) (make_chan 100)"
       "procs s0 = replicate (length (operators p)) OIdle" "src s0 = q0" "written s0 = []"
    by auto
  from Stream_cases[OF a] show ?thesis
    by (auto simp: msgs_ok_def b chan_ok_def make_chan_def list_all_length nth_Cons split: nat.splits)
qed

lemma reach_msgs_ok:
  assumes "reach p sched s" "emits (source p) P" "value_blind P"
  shows "wf p s \<and> msgs_ok P s"
  by (rule reach_invariant[where I = "\<lambda>s. wf p s \<and> msgs_ok P s", OF assms(1)])
     (auto dest: step_act intro: wf_start wf_act msgs_ok_start msgs_ok_act[OF _ _ assms(2,3)])


lemma msgs_ok_all: "msgs_ok P s \<longleftrightarrow> (\<forall>m \<in> all_msgs s. P m)"
  by (auto simp: msgs_ok_def all_msgs_def chan_ok_def list_all_iff)

lemma emits_metadata: "emits sr (\<lambda>m. Metadata m \<noteq> None)"
  by (cases sr)
     (auto simp: channel_msg_def cron_msg_def poll_msg_def
           split: http_result.splits if_splits option.splits sum.splits)

lemma is_final:
  assumes "case final p sched of None \<Rightarrow> False | Some s \<Rightarrow> Q s"
  shows "\<exists>s. reach p sched s \<and> Q s"
  using assms by (cases "final p sched") (auto simp: reach_def)

section \<open>The invariant of a run\<close>

lemma stagesD: "stages L cs qs \<Longrightarrow> i < length qs \<Longrightarrow> L i (cs ! i) (qs ! i) (cs ! Suc i)"
  by (simp add: stages_def)

lemma stages_update:
  assumes "stages L cs qs" and "length cs = Suc (length qs)" and "j < length qs"
    and "L j cj q cj1"
    and "\<And>i. Suc i = j \<Longrightarrow> L i (cs ! i) (qs ! i) (cs ! j) \<Longrightarrow> L i (cs ! i) (qs ! i) cj"
    and "\<And>i. i = Suc j \<Longrightarrow> i < length qs \<Longrightarrow> L i (cs ! i) (qs ! i) (cs ! Suc i)
            \<Longrightarrow> L i cj1 (qs ! i) (cs ! Suc i)"
  shows "stages L (cs[j := cj, Suc j := cj1]) (qs[j := q])"
  unfolding stages_def
proof (intro allI impI)
  fix i assume "i < length (qs[j := q])"
  then have i: "i < length qs" by simp
  consider "i = j" | "Suc i = j" | "i = Suc j" | "i \<noteq> j" "Suc i \<noteq> j" "i \<noteq> Suc j" by blast
  then show "L i (cs[j := cj, Suc j := cj1] ! i) (qs[j := q] ! i) (cs[j := cj, Suc j := cj1] ! Suc i)"
  proof cases
    case 1
    with assms(2,3,4) show ?thesis by simp
  next
    case 2
    with assms(5)[OF 2] stagesD[OF assms(1) i] assms(2,3) i show ?thesis by auto
  next
    case 3
    with assms(6)[OF 3] stagesD[OF assms(1) i] assms(2,3) i show ?thesis by auto
  next
    case 4
    with stagesD[OF assms(1) i] show ?thesis by simp
  qed
qed

lemma stages_update_in:
  assumes "stages L cs qs" and "length cs = Suc (length qs)" and "j < length qs"
    and "L j cj q (cs ! Suc j)"
    and "\<And>i. Suc i = j \<Longrightarrow> L i (cs ! i) (qs ! i) (cs ! j) \<Longrightarrow> L i (cs ! i) (qs ! i) cj"
  shows "stages L (cs[j := cj]) (qs[j := q])"
proof -
  have "(cs[j := cj])[Suc j := cs ! Suc j] = cs[j := cj]"
    using assms(2,3) by (intro nth_equalityI) (auto simp: nth_list_update)
  with stages_update[where L = L and cs = cs and qs = qs and j = j and cj = cj and q = q
      and ?cj1.0 = "cs ! Suc j", OF assms(1,2,3,4,5)]
  show ?thesis by simp
qed

lemma stages_update_out:
  assumes "stages L cs qs" and "length cs = Suc (length qs)" and "j < length qs"
    and "L j (cs ! j) q cj1"
    and "\<And>i. i = Suc j \<Longrightarrow> i < length qs \<Longrightarrow> L i (cs ! i) (qs ! i) (cs ! Suc i)
            \<Longrightarrow> L i cj1 (qs ! i) (cs ! Suc i)"
  shows "stages L (cs[Suc j := cj1]) (qs[j := q])"
  using stages_update[where L = L and cs = cs and qs = qs and j = j and cj = "cs ! j" and q = q
      and ?cj1.0 = cj1, OF assms(1,2,3,4) _ assms(5)]
  by simp

lemma stages_update_first:
  assumes "stages L cs qs" and "length cs = Suc (length qs)"
    and "\<And>q cout. L 0 (cs ! 0) q cout \<Longrightarrow> L 0 c q cout"
  shows "stages L (cs[0 := c]) qs"
  unfolding stages_def
proof (intro allI impI)
  fix i assume i: "i < length qs"
  from stagesD[OF assms(1) i] assms(2,3) show "L i (cs[0 := c] ! i) (qs ! i) (cs[0 := c] ! Suc i)"
    by (cases i) (auto simp: nth_list_update)
qed

lemma stages_update_last:
  assumes "stages L cs qs" and "length cs = Suc (length qs)"
    and "\<And>i cin q. L i cin q (cs ! length qs) \<Longrightarrow> L i cin q c"
  shows "stages L (cs[length qs := c]) qs"
  unfolding stages_def
proof (intro allI impI)
  fix i assume i: "i < length qs"
  from stagesD[OF assms(1) i] assms(2,3) i
  show "L i (cs[length qs := c] ! i) (qs ! i) (cs[length qs := c] ! Suc i)"
    by (cases "Suc i = length qs") (auto simp: nth_list_update)
qed


lemma sent_simps [simp]:
  "sent (send m c) = sent c @ [m]"
  "sent (close c) = sent c"
  "taken (send m c) = taken c"
  "taken (close c) = taken c"
  "buf (close c) = buf c"
  "closed (close c) = True"
  "closed (send m c) = closed c"
  by (simp_all add: sent_def send_def close_def)

lemma sent_pop: "buf c = m # ms \<Longrightarrow> sent (c\<lparr>buf := ms, taken := taken c @ [m]\<rparr>) = sent c"
  by (simp add: sent_def)

lemma wf_len: "wf p s \<Longrightarrow> length (chans s) = Suc (length (procs s)) \<and> length (procs s) = length (operators p)"
  by (simp add: wf_def)

lemma wf_closed0: "wf p s \<Longrightarrow> closed (chans s ! 0) = sdone (src s)"
  by (simp add: wf_def)

lemma wf_closed: "wf p s \<Longrightarrow> i < length (procs s) \<Longrightarrow> closed (chans s ! Suc i) = odone (procs s ! i)"
  by (simp add: wf_def)

lemma nc_OpSend:
  assumes w: "wf p s" and inv: "nc_inv p s" and a: "act p (OpSend i) s = Some s'"
  shows "nc_inv p s'"
proof -
  from act_OpSend[OF a] obtain m where
    i: "i < length (procs s)" and q: "procs s ! i = OSending m" and
    s': "s' = s\<lparr>procs := (procs s)[i := OIdle],
               chans := (chans s)[Suc i := send m (chans s ! Suc i)]\<rparr>"
    by blast
  note len = wf_len[OF w]
  from wf_closed[OF w i] q have open_out: "\<not> closed (chans s ! Suc i)" by simp
  show ?thesis
  proof (cases "cancelled s")
    case (Some r)
    with inv i len show ?thesis
      by (auto simp: nc_inv_def s' nth_list_update)
  next
    case None
    with inv have st: "stages (link (operators p)) (chans s) (procs s)"
      by (simp add: nc_inv_def)
    have "stages (link (operators p)) ((chans s)[Suc i := send m (chans s ! Suc i)])
            ((procs s)[i := OIdle])"
    proof (rule stages_update_out[OF st _ i])
      show "length (chans s) = Suc (length (procs s))" using len by simp
      from stagesD[OF st i] q
      show "link (operators p) i (chans s ! i) OIdle (send m (chans s ! Suc i))"
        by (simp add: link_def)
    next
      fix k assume "k = Suc i" "k < length (procs s)"
        "link (operators p) k (chans s ! k) (procs s ! k) (chans s ! Suc k)"
      with open_out
      show "link (operators p) k (send m (chans s ! Suc i)) (procs s ! k) (chans s ! Suc k)"
        by (auto simp: link_def)
    qed
    with inv None i len open_out show ?thesis
      by (auto simp: nc_inv_def s' nth_list_update)
  qed
qed




lemma nc_OpRecv:
  assumes w: "wf p s" and inv: "nc_inv p s" and a: "act p (OpRecv i) s = Some s'"
  shows "nc_inv p s'"
proof -
  note len = wf_len[OF w]
  from act_OpRecv[OF a] have i: "i < length (procs s)" and q: "procs s ! i = OIdle" by simp_all
  let ?cs = "chans s" and ?qs = "procs s" and ?ops = "operators p"
  have lcs: "length ?cs = Suc (length ?qs)" using len by simp
  from a show ?thesis
  proof (cases rule: act_OpRecv_cases)
    case closed
    show ?thesis
    proof (cases "cancelled s")
      case (Some r)
      with inv i len show ?thesis by (auto simp: nc_inv_def closed(3) nth_list_update)
    next
      case None
      with inv have st: "stages (link ?ops) ?cs ?qs" by (simp add: nc_inv_def)
      have "stages (link ?ops) (?cs[Suc i := close (?cs ! Suc i)]) (?qs[i := ODone])"
      proof (rule stages_update_out[OF st lcs i])
        from stagesD[OF st i] q closed(1,2)
        show "link ?ops i (?cs ! i) ODone (close (?cs ! Suc i))" by (simp add: link_def)
      next
        fix k assume "k = Suc i" "k < length ?qs" "link ?ops k (?cs ! k) (?qs ! k) (?cs ! Suc k)"
        then show "link ?ops k (close (?cs ! Suc i)) (?qs ! k) (?cs ! Suc k)"
          by (auto simp: link_def)
      qed
      with inv None i len show ?thesis
        by (auto simp: nc_inv_def closed(3) nth_list_update)
    qed
  next
    case (canc m ms)
    with inv i len show ?thesis by (auto simp: nc_inv_def nth_list_update)
  next
    case (map m ms fn)
    let ?c = "(?cs ! i)\<lparr>buf := ms, taken := taken (?cs ! i) @ [m]\<rparr>"
    from inv map(2) have st: "stages (link ?ops) ?cs ?qs" by (simp add: nc_inv_def)
    have "stages (link ?ops) (?cs[i := ?c]) (?qs[i := OSending (m\<lparr>Value := fn (Value m)\<rparr>)])"
    proof (rule stages_update_in[OF st lcs i])
      from stagesD[OF st i] q map(1,3)
      show "link ?ops i ?c (OSending (m\<lparr>Value := fn (Value m)\<rparr>)) (?cs ! Suc i)"
        by (simp add: link_def)
    next
      fix k assume "Suc k = i" "link ?ops k (?cs ! k) (?qs ! k) (?cs ! i)"
      with map(1) show "link ?ops k (?cs ! k) (?qs ! k) ?c"
        by (simp add: link_def sent_pop)
    qed
    with inv map(1,2) i len show ?thesis
      by (auto simp: nc_inv_def map(4) nth_list_update sent_pop)
  next
    case (pass m ms fn)
    let ?c = "(?cs ! i)\<lparr>buf := ms, taken := taken (?cs ! i) @ [m]\<rparr>"
    from inv pass(2) have st: "stages (link ?ops) ?cs ?qs" by (simp add: nc_inv_def)
    have "stages (link ?ops) (?cs[i := ?c]) (?qs[i := OSending m])"
    proof (rule stages_update_in[OF st lcs i])
      from stagesD[OF st i] q pass(1,3,4)
      show "link ?ops i ?c (OSending m) (?cs ! Suc i)"
        by (simp add: link_def)
    next
      fix k assume "Suc k = i" "link ?ops k (?cs ! k) (?qs ! k) (?cs ! i)"
      with pass(1) show "link ?ops k (?cs ! k) (?qs ! k) ?c"
        by (simp add: link_def sent_pop)
    qed
    with inv pass(1,2) i len show ?thesis
      by (auto simp: nc_inv_def pass(5) nth_list_update sent_pop)
  next
    case (drop m ms fn)
    let ?c = "(?cs ! i)\<lparr>buf := ms, taken := taken (?cs ! i) @ [m]\<rparr>"
    from inv drop(2) have st: "stages (link ?ops) ?cs ?qs" by (simp add: nc_inv_def)
    have "stages (link ?ops) (?cs[i := ?c]) (?qs[i := OIdle])"
    proof (rule stages_update_in[OF st lcs i])
      from stagesD[OF st i] q drop(1,3,4)
      show "link ?ops i ?c OIdle (?cs ! Suc i)"
        by (simp add: link_def)
    next
      fix k assume "Suc k = i" "link ?ops k (?cs ! k) (?qs ! k) (?cs ! i)"
      with drop(1) show "link ?ops k (?cs ! k) (?qs ! k) ?c"
        by (simp add: link_def sent_pop)
    qed
    moreover from q have "?qs[i := OIdle] = ?qs" by (metis list_update_id)
    ultimately have "stages (link ?ops) (?cs[i := ?c]) ?qs" by simp
    with inv drop(1,2) i len show ?thesis
      by (auto simp: nc_inv_def drop(5) nth_list_update sent_pop)
  qed
qed


lemma nc_ConsRecv:
  assumes w: "wf p s" and inv: "nc_inv p s" and a: "act p ConsRecv s = Some s'"
  shows "nc_inv p s'"
proof -
  note len = wf_len[OF w]
  let ?cs = "chans s" and ?qs = "procs s" and ?ops = "operators p"
  let ?n = "length (procs s)"
  have lcs: "length ?cs = Suc (length ?qs)" using len by simp
  from act_ConsRecv[OF a] obtain sk where sk: "sink p = Some sk" and c: "cons s = CIdle" by blast
  from act_ConsRecv[OF a] sk consider
    (closed) "buf (?cs ! ?n) = []" "closed (?cs ! ?n)" "s' = s\<lparr>cons := CDone\<rparr>"
  | (msg) m ms where "buf (?cs ! ?n) = m # ms"
      "s' = s\<lparr>chans := ?cs[?n := (?cs ! ?n)\<lparr>buf := ms, taken := taken (?cs ! ?n) @ [m]\<rparr>],
             written := written s @ [m],
             cons := (case Write sk (written s) m of
                        None \<Rightarrow> CIdle
                      | Some e \<Rightarrow> CSending (Wrap ''sink write'' e))\<rparr>"
    by (auto simp: Let_def)
  then show ?thesis
  proof cases
    case closed
    with inv c show ?thesis by (auto simp: nc_inv_def)
  next
    case msg
    let ?c = "(?cs ! ?n)\<lparr>buf := ms, taken := taken (?cs ! ?n) @ [m]\<rparr>"
    have nd: "(case Write sk (written s) m of None \<Rightarrow> CIdle
               | Some e \<Rightarrow> CSending (Wrap ''sink write'' e)) \<noteq> CDone"
      by (simp split: option.splits)
    have st: "stages (link ?ops) ?cs ?qs \<Longrightarrow> stages (link ?ops) (?cs[?n := ?c]) ?qs"
    proof (rule stages_update_last[OF _ lcs])
      fix k cin q assume "link ?ops k cin q (?cs ! ?n)"
      with msg(1) show "link ?ops k cin q ?c" by (simp add: link_def sent_pop)
    qed
    from inv c msg(1) len nd st show ?thesis
      by (auto simp: nc_inv_def msg(2) nth_list_update sent_pop)
  qed
qed


lemma nc_SrcRecv:
  assumes w: "wf p s" and inv: "nc_inv p s" and a: "act p SrcRecv s = Some s'"
  shows "nc_inv p s'"
proof -
  note len = wf_len[OF w]
  let ?cs = "chans s" and ?qs = "procs s" and ?ops = "operators p"
  have lcs: "length ?cs = Suc (length ?qs)" using len by simp
  from act_SrcRecv[OF a] obtain vs cl where sr: "source p = ChannelSource vs cl" "src s = SIdle"
    by blast
  from act_SrcRecv[OF a] consider
    (item) v rest where "feed s = v # rest" "s' = s\<lparr>feed := rest, src := SSending (channel_msg v)\<rparr>"
  | (closed) "feed s = []" "s' = s\<lparr>src := SDone, chans := ?cs[0 := close (?cs ! 0)]\<rparr>"
    by blast
  then show ?thesis
  proof cases
    case item
    with inv sr show ?thesis by (auto simp: nc_inv_def)
  next
    case closed
    have st: "stages (link ?ops) ?cs ?qs \<Longrightarrow> stages (link ?ops) (?cs[0 := close (?cs ! 0)]) ?qs"
    proof (rule stages_update_first[OF _ lcs])
      fix q cout assume "link ?ops 0 (?cs ! 0) q cout"
      then show "link ?ops 0 (close (?cs ! 0)) q cout" by (simp add: link_def)
    qed
    from inv sr closed(1) len st show ?thesis
      by (auto simp: nc_inv_def closed(2) nth_list_update)
  qed
qed


lemma nc_SrcSend:
  assumes w: "wf p s" and inv: "nc_inv p s" and a: "act p SrcSend s = Some s'"
  shows "nc_inv p s'"
proof -
  note len = wf_len[OF w]
  let ?cs = "chans s" and ?qs = "procs s" and ?ops = "operators p"
  have lcs: "length ?cs = Suc (length ?qs)" using len by simp
  from act_SrcSend[OF a] obtain m where m: "src s = SSending m"
    and s': "s' = s\<lparr>src := SIdle, chans := ?cs[0 := send m (?cs ! 0)]\<rparr>" by blast
  from wf_closed0[OF w] m have op: "\<not> closed (?cs ! 0)" by simp
  have st: "stages (link ?ops) ?cs ?qs \<Longrightarrow> stages (link ?ops) (?cs[0 := send m (?cs ! 0)]) ?qs"
  proof (rule stages_update_first[OF _ lcs])
    fix q cout assume "link ?ops 0 (?cs ! 0) q cout"
    with op show "link ?ops 0 (send m (?cs ! 0)) q cout" by (auto simp: link_def)
  qed
  from inv m op len st show ?thesis
    by (auto simp: nc_inv_def s' nth_list_update)
qed


lemma nc_inv_quiet:
  assumes "nc_inv p s" and "chans s' = chans s" "procs s' = procs s" "written s' = written s"
    "feed s' = feed s" "cancelled s' = cancelled s"
    and "done_closed s' \<longrightarrow> cons s' = CDone"
    and "cons s' = CDone \<longrightarrow> cons s = CDone"
    and "sdone (src s') \<longrightarrow> sdone (src s)"
    and "\<forall>vs cl. source p = ChannelSource vs cl \<longrightarrow> sheld (src s') = sheld (src s)"
  shows "nc_inv p s'"
  using assms by (simp add: nc_inv_def)

lemma nc_inv_cancelled:
  assumes "nc_inv p s" and "cancelled s' \<noteq> None"
    and "done_closed s' \<longrightarrow> cons s' = CDone" "written s' = written s"
    "length (procs s') = length (procs s)"
    "taken (chans s' ! length (procs s)) = taken (chans s ! length (procs s))"
  shows "nc_inv p s'"
  using assms by (auto simp: nc_inv_def)

lemma nc_inv_act:
  assumes w: "wf p s" and inv: "nc_inv p s" and a: "act p a s = Some s'"
  shows "nc_inv p s'"
proof (cases a)
  case (OpRecv i)
  with a w inv show ?thesis by (auto intro: nc_OpRecv)
next
  case (OpSend i)
  with a w inv show ?thesis by (auto intro: nc_OpSend)
next
  case ConsRecv
  with a w inv show ?thesis by (auto intro: nc_ConsRecv)
next
  case SrcRecv
  with a w inv show ?thesis by (auto intro: nc_SrcRecv)
next
  case SrcSend
  with a w inv show ?thesis by (auto intro: nc_SrcSend)
next
  case (OpAbort i)
  with a have "act p (OpAbort i) s = Some s'" by simp
  from act_OpAbort[OF this] obtain m where i: "i < length (procs s)"
    and c: "cancelled s \<noteq> None"
    and s': "s' = s\<lparr>procs := (procs s)[i := ODone],
               chans := (chans s)[Suc i := close (chans s ! Suc i)]\<rparr>" by blast
  from wf_len[OF w] i have "taken (chans s' ! length (procs s)) = taken (chans s ! length (procs s))"
    by (simp add: s' nth_list_update)
  with c inv show ?thesis by (intro nc_inv_cancelled[OF inv]) (simp_all add: s' nc_inv_def)
next
  case SrcAbort
  with a have "act p SrcAbort s = Some s'" by simp
  from act_SrcAbort[OF this] have c: "cancelled s \<noteq> None"
    and s': "s' = s\<lparr>src := SDone, chans := (chans s)[0 := close (chans s ! 0)]\<rparr> \<or> s' = s\<lparr>src := SIdle\<rparr>"
    by blast+
  from wf_len[OF w] s' have "taken (chans s' ! length (procs s)) = taken (chans s ! length (procs s))"
    by (auto simp: nth_list_update)
  with c s' inv show ?thesis by (intro nc_inv_cancelled[OF inv]) (auto simp: nc_inv_def)
next
  case (SrcPoll r now)
  with a have ax: "act p (SrcPoll r now) s = Some s'" by simp
  from act_SrcPoll[OF ax] consider "s' = s\<lparr>src := SPanic\<rparr>" | "s' = s\<lparr>src := SIdle\<rparr>"
    | m where "s' = s\<lparr>src := SSending m\<rparr>" by blast
  then obtain q where q: "\<not> sdone q" "s' = s\<lparr>src := q\<rparr>"
  proof cases
    case 1
    show ?thesis by (rule that[of SPanic]) (simp_all add: 1)
  next
    case 2
    show ?thesis by (rule that[of SIdle]) (simp_all add: 2)
  next
    case (3 m)
    show ?thesis by (rule that[of "SSending m"]) (simp_all add: 3)
  qed
  from act_SrcPoll[OF ax] have "\<forall>vs cl. source p \<noteq> ChannelSource vs cl" by auto
  with inv q show ?thesis by (intro nc_inv_quiet[OF inv]) (auto simp: nc_inv_def)
next
  case (SrcTick n1 n2)
  with a have ax: "act p (SrcTick n1 n2) s = Some s'" by simp
  from act_SrcTick[OF ax] obtain iv g where
    q0: "s' = s\<lparr>src := SSending (cron_msg n1 n2 (g (calls s))), calls := Suc (calls s)\<rparr>"
    by blast
  obtain q where q: "\<not> sdone q" "s' = s\<lparr>src := q, calls := Suc (calls s)\<rparr>"
    by (rule that[of "SSending (cron_msg n1 n2 (g (calls s)))"]) (simp_all add: q0)
  from act_SrcTick[OF ax] have "\<forall>vs cl. source p \<noteq> ChannelSource vs cl" by auto
  with inv q show ?thesis by (intro nc_inv_quiet[OF inv]) (auto simp: nc_inv_def)
next
  case (Cancel r)
  with a have "act p (Cancel r) s = Some s'" by simp
  from act_Cancel[OF this] inv show ?thesis
    by (intro nc_inv_cancelled[OF inv]) (simp_all add: nc_inv_def)
next
  case ConsSend
  with a have "act p ConsSend s = Some s'" by simp
  from act_ConsSend[OF this] obtain e where "cons s = CSending e"
    "s' = s\<lparr>cons := CIdle, errs := send e (errs s)\<rparr>" by blast
  with inv show ?thesis by (intro nc_inv_quiet[OF inv]) (auto simp: nc_inv_def)
next
  case ConsAbort
  with a have "act p ConsAbort s = Some s'" by simp
  from act_ConsAbort[OF this] show ?thesis by (intro nc_inv_cancelled[OF inv]) (auto simp: nc_inv_def)
next
  case WaitClose
  with a have "act p WaitClose s = Some s'" by simp
  from act_WaitClose[OF this] show ?thesis by (intro nc_inv_quiet[OF inv]) simp_all
next
  case DrvDone
  with a have "act p DrvDone s = Some s'" by simp
  from act_DrvDone[OF this] inv show ?thesis
    by (intro nc_inv_quiet[OF inv]) (auto simp: nc_inv_def)
next
  case DrvCancel
  with a have "act p DrvCancel s = Some s'" by simp
  from act_DrvCancel[OF this] inv show ?thesis
    by (intro nc_inv_quiet[OF inv]) (auto simp: nc_inv_def)
next
  case DrvErr
  with a have "act p DrvErr s = Some s'" by simp
  from act_DrvErr[OF this] inv show ?thesis
    by (intro nc_inv_quiet[OF inv]) (auto simp: nc_inv_def)
qed

section \<open>Errors and the result of Run\<close>

lemma write_errs_append:
  "write_errs sk h (ms @ [m]) =
     write_errs sk h ms @ (case Write sk (h @ ms) m of None \<Rightarrow> [] | Some e \<Rightarrow> [Wrap ''sink write'' e])"
  by (induction ms arbitrary: h) simp_all

lemma drv_inv_frame:
  assumes "drv_inv p sk s" and "cons s' = cons s" "errs s' = errs s" "written s' = written s"
    "drv s' = drv s" "closes s' = closes s" "cancelled s' = cancelled s"
    "done_closed s' = done_closed s"
  shows "drv_inv p sk s'"
  using assms by (simp add: drv_inv_def)

lemma drv_inv_ConsRecv:
  assumes inv: "nc_inv p s" and sk: "sink p = Some sk" and d: "drv_inv p sk s"
    and a: "act p ConsRecv s = Some s'"
  shows "drv_inv p sk s'"
proof -
  from act_ConsRecv[OF a] sk have c: "cons s = CIdle" by auto
  with inv have nd: "\<not> done_closed s" by (auto simp: nc_inv_def)
  from act_ConsRecv[OF a] sk consider
    (closed) "s' = s\<lparr>cons := CDone\<rparr>"
  | (msg) m ms where
      "s' = s\<lparr>chans := (chans s)[length (procs s) := (chans s ! length (procs s))\<lparr>buf := ms, taken := taken (chans s ! length (procs s)) @ [m]\<rparr>],
             written := written s @ [m],
             cons := (case Write sk (written s) m of
                        None \<Rightarrow> CIdle
                      | Some e \<Rightarrow> CSending (Wrap ''sink write'' e))\<rparr>"
    by (auto simp: Let_def)
  then show ?thesis
  proof cases
    case closed
    with d c show ?thesis by (auto simp: drv_inv_def)
  next
    case msg
    with d c nd show ?thesis
      by (auto simp: drv_inv_def write_errs_append split: option.splits)
  qed
qed
lemma drv_inv_act:
  assumes inv: "nc_inv p s" and sk: "sink p = Some sk" and d: "drv_inv p sk s"
    and a: "act p a s = Some s'"
  shows "drv_inv p sk s'"
proof -
  have src: "is_src_act a \<Longrightarrow> drv_inv p sk s'"
    using src_act_frame[OF _ a] by (intro drv_inv_frame[OF d]) simp_all
  have op: "is_op_act a \<Longrightarrow> drv_inv p sk s'"
    using op_act_frame[OF _ a] by (intro drv_inv_frame[OF d]) simp_all
  show ?thesis
  proof (cases a)
  case ConsRecv
  with a inv sk d show ?thesis by (auto intro: drv_inv_ConsRecv)
next
  case ConsSend
  with a have "act p ConsSend s = Some s'" by simp
  from act_ConsSend[OF this] d show ?thesis
    by (auto simp: drv_inv_def)
next
  case ConsAbort
  with a have "act p ConsAbort s = Some s'" by simp
  from act_ConsAbort[OF this] d show ?thesis
    by (auto simp: drv_inv_def intro: prefixI[OF sym])
next
  case WaitClose
  with a have "act p WaitClose s = Some s'" by simp
  from act_WaitClose[OF this] d show ?thesis
    by (auto simp: drv_inv_def)
next
  case DrvDone
  with a have "act p DrvDone s = Some s'" by simp
  from act_DrvDone[OF this] d sk show ?thesis
    by (auto simp: drv_inv_def complete_def split: prod.splits)
next
  case DrvCancel
  with a have "act p DrvCancel s = Some s'" by simp
  from act_DrvCancel[OF this] obtain r where
    "drv s = Waiting" "cancelled s = Some r" "s' = s\<lparr>drv := Returned (Some r)\<rparr>" by blast
  with d show ?thesis
    by (simp add: drv_inv_def)
next
  case DrvErr
  with a have "act p DrvErr s = Some s'" by simp
  from act_DrvErr[OF this] d show ?thesis
    by (auto simp: drv_inv_def sent_def)
next
  case (Cancel r)
  with a have "act p (Cancel r) s = Some s'" by simp
  from act_Cancel[OF this] d show ?thesis
    by (auto simp: drv_inv_def)
  qed (use src op in \<open>simp_all add: is_src_act_def is_op_act_def\<close>)
qed

lemma apply_op_Nil [simp]: "apply_op op [] = []"
  by (cases op) simp_all

lemma nc_inv_start:
  assumes "Run_start p = (tr, Inr s0)"
  shows "nc_inv p s0"
proof -
  let ?n = "length (operators p)"
  from Run_start_Inr[OF assms] obtain sk q0 c0 where
    a: "Stream (source p) = Inr (q0, c0)" and
    b: "s0 = \<lparr>cancelled = None,
           feed = (case source p of ChannelSource vs cl \<Rightarrow> vs | _ \<Rightarrow> []),
           calls = 0, src = q0,
           chans = c0 # replicate ?n (make_chan 100),
           procs = replicate ?n OIdle, cons = CIdle,
           written = [], errs = errChan p, done_closed = False,
           drv = Waiting, closes = []\<rparr>"
    by auto
  from Stream_cases[OF a] have c0: "buf c0 = []" "taken c0 = []" and q0: "q0 = SIdle \<or> q0 = SStart"
    by simp_all
  have e: "\<And>k. k \<le> ?n \<Longrightarrow> sent (chans s0 ! k) = [] \<and> taken (chans s0 ! k) = []"
    using c0 by (simp add: b nth_Cons sent_def make_chan_def split: nat.splits)
  have st: "stages (link (operators p)) (chans s0) (procs s0)"
    unfolding stages_def
  proof (intro allI impI)
    fix i assume "i < length (procs s0)"
    then have i: "i < ?n" by (simp add: b)
    then have "procs s0 ! i = OIdle" by (simp add: b)
    with e[of i] e[of "Suc i"] i
    show "link (operators p) i (chans s0 ! i) (procs s0 ! i) (chans s0 ! Suc i)"
      by (simp add: link_def)
  qed
  have sd: "\<not> sdone (src s0)" "sheld (src s0) = []" using q0 by (auto simp: b)
  have fl: "\<forall>vs cl. source p = ChannelSource vs cl \<longrightarrow>
           map channel_msg vs = sent (chans s0 ! 0) @ sheld (src s0) @ map channel_msg (feed s0)"
    using e[of 0] sd by (auto simp: b)
  have w: "written s0 = taken (chans s0 ! length (procs s0))"
    using e[of ?n] by (simp add: b)
  have "cons s0 = CIdle" "\<not> done_closed s0" by (simp_all add: b)
  with st sd fl w show ?thesis by (simp add: nc_inv_def)
qed

lemma drv_inv_start:
  assumes "Run_start p = (tr, Inr s0)" and "errChan p = make_chan 10"
  shows "drv_inv p sk s0"
  using Run_start_Inr[OF assms(1)] assms(2)
  by (auto simp: drv_inv_def sent_def make_chan_def)

lemma reach_inv:
  assumes "reach p sched s"
  shows "wf p s \<and> nc_inv p s"
  by (rule reach_invariant[where I = "\<lambda>s. wf p s \<and> nc_inv p s", OF assms])
     (auto dest: step_act intro: wf_start wf_act nc_inv_start nc_inv_act)

lemma reach_drv_inv:
  assumes "reach p sched s" and "sink p = Some sk" and "errChan p = make_chan 10"
  shows "drv_inv p sk s"
proof -
  have "wf p s \<and> nc_inv p s \<and> drv_inv p sk s"
    by (rule reach_invariant[where I = "\<lambda>s. wf p s \<and> nc_inv p s \<and> drv_inv p sk s", OF assms(1)])
       (auto dest: step_act intro: wf_start wf_act nc_inv_start nc_inv_act
          drv_inv_start[OF _ assms(3)] drv_inv_act[OF _ assms(2)])
  then show ?thesis by simp
qed

section \<open>Delivery, termination and progress\<close>

lemma all_drained:
  assumes w: "wf p s" and inv: "nc_inv p s" and nc: "cancelled s = None" and c: "cons s = CDone"
  shows "d \<le> length (procs s) \<Longrightarrow>
    buf (chans s ! (length (procs s) - d)) = [] \<and> closed (chans s ! (length (procs s) - d))"
proof (induction d)
  case 0
  from inv nc c show ?case by (simp add: nc_inv_def)
next
  case (Suc d)
  let ?k = "length (procs s) - Suc d"
  from Suc.prems have k: "?k < length (procs s)" and sk: "Suc ?k = length (procs s) - d" by simp_all
  from Suc.IH Suc.prems sk have "closed (chans s ! Suc ?k)" by simp
  with wf_closed[OF w k] have "odone (procs s ! ?k)" by simp
  moreover from inv nc have "stages (link (operators p)) (chans s) (procs s)" by (simp add: nc_inv_def)
  from stagesD[OF this k] have "link (operators p) ?k (chans s ! ?k) (procs s ! ?k) (chans s ! Suc ?k)" .
  ultimately show ?case by (simp add: link_def)
qed

lemma drained_at:
  assumes "wf p s" "nc_inv p s" "cancelled s = None" "cons s = CDone" "k \<le> length (procs s)"
  shows "buf (chans s ! k) = []" "closed (chans s ! k)"
  using all_drained[OF assms(1-4), of "length (procs s) - k"] assms(5) by simp_all

lemma taken_fold:
  assumes w: "wf p s" and inv: "nc_inv p s" and nc: "cancelled s = None" and c: "cons s = CDone"
    and sr: "source p = ChannelSource vs cl"
  shows "k \<le> length (procs s) \<Longrightarrow>
    taken (chans s ! k) = fold apply_op (take k (operators p)) (map channel_msg vs)"
proof (induction k)
  case 0
  from drained_at[OF w inv nc c, of 0] have b: "buf (chans s ! 0) = []" "closed (chans s ! 0)"
    by simp_all
  with wf_closed0[OF w] have sd: "sdone (src s)" by simp
  then have "sheld (src s) = []" by (cases "src s") simp_all
  moreover from inv nc sd have "feed s = []" by (simp add: nc_inv_def)
  moreover from inv nc sr
  have "map channel_msg vs = sent (chans s ! 0) @ sheld (src s) @ map channel_msg (feed s)"
    by (simp add: nc_inv_def)
  ultimately show ?case using b by (simp add: sent_def)
next
  case (Suc k)
  then have k: "k < length (procs s)" by simp
  with wf_len[OF w] have ko: "k < length (operators p)" by simp
  from drained_at[OF w inv nc c, of "Suc k"] Suc.prems
  have b: "buf (chans s ! Suc k) = []" "closed (chans s ! Suc k)" by simp_all
  with wf_closed[OF w k] have "odone (procs s ! k)" by simp
  then have h: "held (procs s ! k) = []" by (cases "procs s ! k") simp_all
  from inv nc have "stages (link (operators p)) (chans s) (procs s)" by (simp add: nc_inv_def)
  from stagesD[OF this k] h b
  have "taken (chans s ! Suc k) = apply_op (operators p ! k) (taken (chans s ! k))"
    by (simp add: link_def sent_def)
  with Suc.IH k ko show ?case by (simp add: take_Suc_conv_app_nth)
qed

lemma delivered:
  assumes "wf p s" "nc_inv p s" "cancelled s = None" "cons s = CDone"
    "source p = ChannelSource vs cl"
  shows "written s = fold apply_op (operators p) (map channel_msg vs)"
proof -
  from assms(2) have "written s = taken (chans s ! length (procs s))" by (simp add: nc_inv_def)
  with taken_fold[OF assms, of "length (procs s)"] wf_len[OF assms(1)] show ?thesis by simp
qed

lemma write_errs_ok: "\<forall>h m. Write sk h m = None \<Longrightarrow> write_errs sk h ms = []"
  by (induction ms arbitrary: h) simp_all

lemma returned_done:
  assumes d: "drv_inv p sk s" and nc: "cancelled s = None" and ok: "\<forall>h m. Write sk h m = None"
    and r: "drv s = Returned r"
  shows "done_closed s \<and> (closes s, r) = done_outcome p sk (written s)"
proof -
  from d have "prefix (sent (errs s)) (write_errs sk [] (written s))"
    by (cases "cons s = CDone") (auto simp: drv_inv_def intro: prefixI[OF sym])
  with write_errs_ok[OF ok] have "taken (errs s) = []" by (simp add: sent_def)
  with d nc r show ?thesis by (auto simp: drv_inv_def)
qed

lemma filter_map_values:
  "map (\<lambda>m. m\<lparr>Value := f (Value m)\<rparr>) (filter (\<lambda>m. g (Value m)) (map channel_msg vs))
     = map (\<lambda>v. channel_msg (f v)) (filter g vs)"
  by (induction vs) (simp_all add: channel_msg_def)

lemma wchans_update:
  "k < length cs \<Longrightarrow>
     wchans (cs[k := c]) + length (buf (cs ! k)) * (2 * (length cs - Suc k) + 2)
       = wchans cs + length (buf c) * (2 * (length cs - Suc k) + 2)"
proof (induction cs arbitrary: k)
  case Nil
  then show ?case by simp
next
  case (Cons a cs)
  then show ?case by (cases k) simp_all
qed

lemma wprocs_update:
  "k < length qs \<Longrightarrow>
     wprocs (qs[k := q]) + wproc (length qs - Suc k) (qs ! k)
       = wprocs qs + wproc (length qs - Suc k) q"
proof (induction qs arbitrary: k)
  case Nil
  then show ?case by simp
next
  case (Cons a qs)
  then show ?case by (cases k) simp_all
qed

lemma wchans_pop:
  assumes "k < length cs" "buf (cs ! k) = m # ms"
  shows "wchans cs = wchans (cs[k := (cs ! k)\<lparr>buf := ms, taken := t\<rparr>]) + (2 * (length cs - Suc k) + 2)"
  using wchans_update[OF assms(1), of "(cs ! k)\<lparr>buf := ms, taken := t\<rparr>"] assms(2) by simp

lemma wchans_send:
  assumes "k < length cs"
  shows "wchans (cs[k := send m (cs ! k)]) = wchans cs + (2 * (length cs - Suc k) + 2)"
  using wchans_update[OF assms(1), of "send m (cs ! k)"] by (simp add: send_def)

lemma wchans_close:
  assumes "k < length cs"
  shows "wchans (cs[k := close (cs ! k)]) = wchans cs"
  using wchans_update[OF assms(1), of "close (cs ! k)"] by (simp add: close_def)

lemma complete_drv:
  "drv (complete p sk s) = Returned (snd (done_outcome p sk (written s)))"
  "closes (complete p sk s) = closes s @ fst (done_outcome p sk (written s))"
  by (simp_all add: complete_def split: prod.splits)

lemma weight_OpRecv:
  assumes w: "wf p s" and a: "act p (OpRecv i) s = Some s'" and nc: "cancelled s' = None"
  shows "weight s' < weight s"
proof -
  note len = wf_len[OF w]
  from act_OpRecv[OF a] have i: "i < length (procs s)" and q: "procs s ! i = OIdle" by simp_all
  from i len have ic: "i < length (chans s)" "Suc i < length (chans s)" by simp_all
  have e: "length (chans s) - Suc i = Suc (length (procs s) - Suc i)" using i len by simp
  from a show ?thesis
  proof (cases rule: act_OpRecv_cases)
    case closed
    from wprocs_update[OF i, of ODone] q have "wprocs ((procs s)[i := ODone]) + 1 = wprocs (procs s)"
      by simp
    with wchans_close[OF ic(2)] show ?thesis by (simp add: weight_def closed(3))
  next
    case (canc m ms)
    with nc show ?thesis by simp
  next
    case (map m ms fn)
    from wprocs_update[OF i, of "OSending (m\<lparr>Value := fn (Value m)\<rparr>)"] q
    have "wprocs ((procs s)[i := OSending (m\<lparr>Value := fn (Value m)\<rparr>)]) + 1
        = wprocs (procs s) + (2 * (length (procs s) - Suc i) + 4)" by simp
    with wchans_pop[OF ic(1) map(1), of "taken (chans s ! i) @ [m]"] e
    show ?thesis by (simp add: weight_def map(4))
  next
    case (pass m ms fn)
    from wprocs_update[OF i, of "OSending m"] q
    have "wprocs ((procs s)[i := OSending m]) + 1
        = wprocs (procs s) + (2 * (length (procs s) - Suc i) + 4)" by simp
    with wchans_pop[OF ic(1) pass(1), of "taken (chans s ! i) @ [m]"] e
    show ?thesis by (simp add: weight_def pass(5))
  next
    case (drop m ms fn)
    with wchans_pop[OF ic(1) drop(1), of "taken (chans s ! i) @ [m]"]
    show ?thesis by (simp add: weight_def drop(5))
  qed
qed

lemma weight_OpSend:
  assumes w: "wf p s" and a: "act p (OpSend i) s = Some s'"
  shows "weight s' < weight s"
proof -
  note len = wf_len[OF w]
  from act_OpSend[OF a] obtain m where i: "i < length (procs s)" and q: "procs s ! i = OSending m"
    and s': "s' = s\<lparr>procs := (procs s)[i := OIdle],
               chans := (chans s)[Suc i := send m (chans s ! Suc i)]\<rparr>" by blast
  from i len have ic: "Suc i < length (chans s)" by simp
  have e: "length (chans s) - Suc (Suc i) = length (procs s) - Suc i" using i len by simp
  from wprocs_update[OF i, of OIdle] q
  have "wprocs ((procs s)[i := OIdle]) + (2 * (length (procs s) - Suc i) + 4) = wprocs (procs s) + 1"
    by simp
  with wchans_send[OF ic, of m] e show ?thesis by (simp add: weight_def s')
qed

lemma weight_ConsRecv:
  assumes w: "wf p s" and a: "act p ConsRecv s = Some s'"
  shows "weight s' < weight s"
proof -
  note len = wf_len[OF w]
  let ?n = "length (procs s)"
  from len have ic: "?n < length (chans s)" by simp
  from act_ConsRecv[OF a] obtain sk where sk: "sink p = Some sk" and c: "cons s = CIdle" by blast
  from act_ConsRecv[OF a] sk consider
    (closed) "s' = s\<lparr>cons := CDone\<rparr>"
  | (msg) m ms where "buf (chans s ! ?n) = m # ms"
      "s' = s\<lparr>chans := (chans s)[?n := (chans s ! ?n)\<lparr>buf := ms, taken := taken (chans s ! ?n) @ [m]\<rparr>],
             written := written s @ [m],
             cons := (case Write sk (written s) m of
                        None \<Rightarrow> CIdle
                      | Some e \<Rightarrow> CSending (Wrap ''sink write'' e))\<rparr>"
    by (auto simp: Let_def)
  then show ?thesis
  proof cases
    case closed
    with c show ?thesis by (simp add: weight_def)
  next
    case msg
    have "wcons (case Write sk (written s) m of None \<Rightarrow> CIdle
               | Some e \<Rightarrow> CSending (Wrap ''sink write'' e)) \<le> 2"
      by (simp split: option.splits)
    with wchans_pop[OF ic msg(1), of "taken (chans s ! ?n) @ [m]"] c len
    show ?thesis by (simp add: weight_def msg(2))
  qed
qed

lemma weight_act:
  assumes w: "wf p s" and a: "act p a s = Some s'" and nc: "cancelled s' = None"
    and sr: "source p = ChannelSource vs cl"
  shows "weight s' < weight s"
proof (cases a)
  case (OpRecv i)
  with a w nc show ?thesis by (auto intro: weight_OpRecv)
next
  case (OpSend i)
  with a w show ?thesis by (auto intro: weight_OpSend)
next
  case ConsRecv
  with a w show ?thesis by (auto intro: weight_ConsRecv)
next
  case SrcRecv
  with a have "act p SrcRecv s = Some s'" by simp
  from act_SrcRecv[OF this] wf_len[OF w] wchans_close[of 0 "chans s"] show ?thesis
    by (auto simp: weight_def)
next
  case SrcSend
  with a have "act p SrcSend s = Some s'" by simp
  from act_SrcSend[OF this] wf_len[OF w] wchans_send[of 0 "chans s"] show ?thesis
    by (auto simp: weight_def)
next
  case (SrcTick n1 n2)
  with a have "act p (SrcTick n1 n2) s = Some s'" by simp
  from act_SrcTick[OF this] sr show ?thesis by auto
next
  case (SrcPoll r now)
  with a have "act p (SrcPoll r now) s = Some s'" by simp
  from act_SrcPoll[OF this] sr show ?thesis by auto
next
  case SrcAbort
  with a have "act p SrcAbort s = Some s'" by simp
  from src_act_frame[OF _ this] act_SrcAbort[OF this] nc show ?thesis
    by (simp add: is_src_act_def)
next
  case (OpAbort i)
  with a have "act p (OpAbort i) s = Some s'" by simp
  from op_act_frame[OF _ this] act_OpAbort[OF this] nc show ?thesis
    by (simp add: is_op_act_def)
next
  case (Cancel r)
  with a have "act p (Cancel r) s = Some s'" by simp
  from act_Cancel[OF this] nc show ?thesis by simp
next
  case ConsSend
  with a have "act p ConsSend s = Some s'" by simp
  from act_ConsSend[OF this] show ?thesis by (auto simp: weight_def)
next
  case ConsAbort
  with a have "act p ConsAbort s = Some s'" by simp
  from act_ConsAbort[OF this] nc show ?thesis by auto
next
  case WaitClose
  with a have "act p WaitClose s = Some s'" by simp
  from act_WaitClose[OF this] show ?thesis by (auto simp: weight_def)
next
  case DrvDone
  with a have "act p DrvDone s = Some s'" by simp
  from act_DrvDone[OF this] show ?thesis
    by (auto simp: weight_def complete_drv)
next
  case DrvCancel
  with a have "act p DrvCancel s = Some s'" by simp
  from act_DrvCancel[OF this] nc show ?thesis by auto
next
  case DrvErr
  with a have "act p DrvErr s = Some s'" by simp
  from act_DrvErr[OF this] show ?thesis by (auto simp: weight_def)
qed

lemma act_src_unchanged:
  assumes "\<not> is_src_act a" and "act p a s = Some s'"
  shows "src s' = src s"
proof (cases a)
  case (Cancel r)
  with assms(2) have "act p (Cancel r) s = Some s'" by simp
  from act_Cancel[OF this] show ?thesis by simp
next
  case ConsRecv
  with assms(2) have "act p ConsRecv s = Some s'" by simp
  from act_ConsRecv[OF this] show ?thesis by (auto simp: Let_def)
next
  case ConsSend
  with assms(2) have "act p ConsSend s = Some s'" by simp
  from act_ConsSend[OF this] show ?thesis by auto
next
  case ConsAbort
  with assms(2) have "act p ConsAbort s = Some s'" by simp
  from act_ConsAbort[OF this] show ?thesis by auto
next
  case WaitClose
  with assms(2) have "act p WaitClose s = Some s'" by simp
  from act_WaitClose[OF this] show ?thesis by auto
next
  case DrvDone
  with assms(2) have "act p DrvDone s = Some s'" by simp
  from act_DrvDone[OF this] show ?thesis by auto
next
  case DrvCancel
  with assms(2) have "act p DrvCancel s = Some s'" by simp
  from act_DrvCancel[OF this] show ?thesis by auto
next
  case DrvErr
  with assms(2) have "act p DrvErr s = Some s'" by simp
  from act_DrvErr[OF this] show ?thesis by auto
next
  case (OpRecv i)
  with op_act_frame[OF _ assms(2)] show ?thesis by (simp add: is_op_act_def)
next
  case (OpSend i)
  with op_act_frame[OF _ assms(2)] show ?thesis by (simp add: is_op_act_def)
next
  case (OpAbort i)
  with op_act_frame[OF _ assms(2)] show ?thesis by (simp add: is_op_act_def)
qed (use assms(1) in \<open>simp_all add: is_src_act_def\<close>)

lemma srunning_act:
  assumes "source p = ChannelSource vs cl" and "srunning (src s)" and "act p a s = Some s'"
  shows "srunning (src s')"
proof (cases a)
  case SrcRecv
  with assms(3) have "act p SrcRecv s = Some s'" by simp
  from act_SrcRecv[OF this] show ?thesis by auto
next
  case (SrcTick n1 n2)
  with assms(3) have "act p (SrcTick n1 n2) s = Some s'" by simp
  from act_SrcTick[OF this] assms(1) show ?thesis by auto
next
  case (SrcPoll r now)
  with assms(3) have "act p (SrcPoll r now) s = Some s'" by simp
  from act_SrcPoll[OF this] assms(1) show ?thesis by auto
next
  case SrcSend
  with assms(3) have "act p SrcSend s = Some s'" by simp
  from act_SrcSend[OF this] show ?thesis by auto
next
  case SrcAbort
  with assms(3) have "act p SrcAbort s = Some s'" by simp
  from act_SrcAbort[OF this] show ?thesis by auto
qed (use assms(2) act_src_unchanged[OF _ assms(3)] in \<open>simp_all add: is_src_act_def\<close>)

lemma reach_srunning:
  assumes "reach p sched s" and "source p = ChannelSource vs cl"
  shows "srunning (src s)"
proof (rule reach_invariant[where I = "\<lambda>s. srunning (src s)", OF assms(1)])
  fix tr s0 assume "Run_start p = (tr, Inr s0)"
  from Run_start_Inr[OF this] assms(2) show "srunning (src s0)"
    by (auto simp: ChannelSource_Stream_def)
next
  fix a s s' assume "srunning (src s)" "step p a s = Some s'"
  with srunning_act[OF assms(2)] step_act show "srunning (src s')" by blast
qed

lemma enabled_SrcRecv:
  assumes "source p = ChannelSource vs True" "src s = SIdle"
  shows "\<exists>s'. act p SrcRecv s = Some s' \<and> cancelled s' = cancelled s"
  using assms by (cases "feed s") (simp_all add: act.simps finish_source_def)

lemma enabled_SrcSend:
  assumes "src s = SSending m" "can_send (chans s ! 0)"
  shows "\<exists>s'. act p SrcSend s = Some s' \<and> cancelled s' = cancelled s"
  using assms by (simp add: act.simps)

lemma enabled_OpSend:
  assumes "i < length (procs s)" "procs s ! i = OSending m" "can_send (chans s ! Suc i)"
  shows "\<exists>s'. act p (OpSend i) s = Some s' \<and> cancelled s' = cancelled s"
  using assms by (simp add: act.simps)

lemma enabled_OpRecv:
  assumes "i < length (procs s)" "i < length (operators p)" "procs s ! i = OIdle"
    "buf (chans s ! i) \<noteq> [] \<or> closed (chans s ! i)"
  shows "\<exists>s'. act p (OpRecv i) s = Some s' \<and> cancelled s' = cancelled s"
proof (cases "buf (chans s ! i)")
  case Nil
  with assms show ?thesis by (simp add: act.simps recv_def finish_op_def)
next
  case (Cons m ms)
  with assms(1-3) show ?thesis
    by (cases "operators p ! i") (simp_all add: act.simps recv_def finish_op_def Let_def)
qed

lemma enabled_ConsRecv:
  assumes "sink p = Some sk" "cons s = CIdle"
    "buf (chans s ! length (procs s)) \<noteq> [] \<or> closed (chans s ! length (procs s))"
  shows "\<exists>s'. act p ConsRecv s = Some s' \<and> cancelled s' = cancelled s"
  using assms by (cases "buf (chans s ! length (procs s))") (simp_all add: act.simps recv_def)

lemma enabled_WaitClose:
  assumes "cons s = CDone" "\<not> done_closed s"
  shows "\<exists>s'. act p WaitClose s = Some s' \<and> cancelled s' = cancelled s"
  using assms by (simp add: act.simps)

lemma enabled_DrvDone:
  assumes "sink p = Some sk" "drv s = Waiting" "done_closed s"
  shows "\<exists>s'. act p DrvDone s = Some s' \<and> cancelled s' = cancelled s"
  using assms by (simp add: act.simps)

lemma empty_can_send: "wf p s \<Longrightarrow> k < length (chans s) \<Longrightarrow> buf (chans s ! k) = [] \<Longrightarrow> can_send (chans s ! k)"
  by (simp add: wf_def can_send_def)

lemma progress_upstream:
  assumes w: "wf p s" and sr: "source p = ChannelSource vs True" and run: "srunning (src s)"
  shows "k \<le> length (procs s) \<Longrightarrow> buf (chans s ! k) = [] \<Longrightarrow> \<not> closed (chans s ! k)
    \<Longrightarrow> \<exists>a s'. act p a s = Some s' \<and> cancelled s' = cancelled s"
proof (induction k)
  case 0
  from wf_closed0[OF w] 0 have nd: "\<not> sdone (src s)" by simp
  from wf_len[OF w] have l: "0 < length (chans s)" by simp
  show ?case
  proof (cases "src s")
    case SIdle
    from enabled_SrcRecv[OF sr SIdle] show ?thesis by blast
  next
    case (SSending m)
    from enabled_SrcSend[OF SSending empty_can_send[OF w l "0.prems"(2)]] show ?thesis by blast
  qed (use nd run in simp_all)
next
  case (Suc k)
  then have k: "k < length (procs s)" by simp
  with wf_len[OF w] have ko: "k < length (operators p)" and kc: "Suc k < length (chans s)"
    by simp_all
  from wf_closed[OF w k] Suc.prems have nd: "\<not> odone (procs s ! k)" by simp
  show ?case
  proof (cases "procs s ! k")
    case OIdle
    show ?thesis
    proof (cases "buf (chans s ! k) \<noteq> [] \<or> closed (chans s ! k)")
      case True
      from enabled_OpRecv[OF k ko OIdle True] show ?thesis by blast
    next
      case False
      with Suc.IH k show ?thesis by simp
    qed
  next
    case (OSending m)
    from enabled_OpSend[OF k OSending empty_can_send[OF w kc Suc.prems(2)]] show ?thesis by blast
  next
    case ODone
    with nd show ?thesis by simp
  qed
qed

lemma progress:
  assumes w: "wf p s" and sr: "source p = ChannelSource vs True" and run: "srunning (src s)"
    and sk: "sink p = Some sk" and d: "drv_inv p sk s" and ok: "\<forall>h m. Write sk h m = None"
    and wt: "drv s = Waiting"
  shows "\<exists>a s'. step p a s = Some s' \<and> cancelled s' = cancelled s"
proof -
  have st: "\<And>a s'. step p a s = act p a s"
    using run by (cases "src s") (simp_all add: step_def)
  have "\<exists>a s'. act p a s = Some s' \<and> cancelled s' = cancelled s"
  proof (cases "cons s")
    case CIdle
    show ?thesis
    proof (cases "buf (chans s ! length (procs s)) \<noteq> [] \<or> closed (chans s ! length (procs s))")
      case True
      from enabled_ConsRecv[OF sk CIdle True] show ?thesis by blast
    next
      case False
      with progress_upstream[OF w sr run, of "length (procs s)"] show ?thesis by simp
    qed
  next
    case (CSending e)
    with d write_errs_ok[OF ok] show ?thesis by (simp add: drv_inv_def)
  next
    case CDone
    show ?thesis
    proof (cases "done_closed s")
      case True
      from enabled_DrvDone[OF sk wt True] show ?thesis by blast
    next
      case False
      from enabled_WaitClose[OF CDone False] show ?thesis by blast
    qed
  qed
  with st show ?thesis by simp
qed

section \<open>Whole runs\<close>

lemma act_cancelled:
  assumes "act p a s = Some s'"
  shows "cancelled s' = cancelled s \<or> (cancelled s = None \<and> cancelled s' \<noteq> None)"
proof (cases a)
  case (Cancel r)
  with assms have "act p (Cancel r) s = Some s'" by simp
  from act_Cancel[OF this] show ?thesis by simp
next
  case ConsRecv
  with assms have "act p ConsRecv s = Some s'" by simp
  from act_ConsRecv[OF this] show ?thesis by (auto simp: Let_def)
next
  case ConsSend
  with assms have "act p ConsSend s = Some s'" by simp
  from act_ConsSend[OF this] show ?thesis by auto
next
  case ConsAbort
  with assms have "act p ConsAbort s = Some s'" by simp
  from act_ConsAbort[OF this] show ?thesis by auto
next
  case WaitClose
  with assms have "act p WaitClose s = Some s'" by simp
  from act_WaitClose[OF this] show ?thesis by auto
next
  case DrvDone
  with assms have "act p DrvDone s = Some s'" by simp
  from act_DrvDone[OF this] show ?thesis by auto
next
  case DrvCancel
  with assms have "act p DrvCancel s = Some s'" by simp
  from act_DrvCancel[OF this] show ?thesis by auto
next
  case DrvErr
  with assms have "act p DrvErr s = Some s'" by simp
  from act_DrvErr[OF this] show ?thesis by auto
qed (use src_act_frame[OF _ assms] op_act_frame[OF _ assms] in
      \<open>simp_all add: is_src_act_def is_op_act_def\<close>)

lemma exec_cancel_mono:
  "exec p sched s0 = Some s \<Longrightarrow> cancelled s = None \<Longrightarrow> cancelled s0 = None"
proof (induction sched arbitrary: s0)
  case Nil
  then show ?case by simp
next
  case (Cons a sched)
  from Cons.prems(1) obtain s1 where s1: "step p a s0 = Some s1" "exec p sched s1 = Some s"
    by (auto split: option.splits)
  from Cons.IH[OF s1(2) Cons.prems(2)] have "cancelled s1 = None" .
  with act_cancelled[of p a s0 s1] step_act[OF s1(1)] show ?case by auto
qed

lemma exec_weight:
  assumes sr: "source p = ChannelSource vs cl"
  shows "exec p sched s0 = Some s \<Longrightarrow> cancelled s = None \<Longrightarrow> wf p s0
     \<Longrightarrow> weight s + length sched \<le> weight s0"
proof (induction sched arbitrary: s0)
  case Nil
  then show ?case by simp
next
  case (Cons a sched)
  from Cons.prems(1) obtain s1 where s1: "step p a s0 = Some s1" "exec p sched s1 = Some s"
    by (auto split: option.splits)
  from step_act[OF s1(1)] have a: "act p a s0 = Some s1" by simp
  from exec_cancel_mono[OF s1(2) Cons.prems(2)] have c1: "cancelled s1 = None" .
  from weight_act[OF Cons.prems(3) a c1 sr] have "weight s1 < weight s0" .
  moreover from Cons.IH[OF s1(2) Cons.prems(2) wf_act[OF Cons.prems(3) a]]
  have "weight s + length sched \<le> weight s1" .
  ultimately show ?case by simp
qed

lemma wchans_empty: "\<forall>c \<in> set cs. buf c = [] \<Longrightarrow> wchans cs = 0"
  by (induction cs) simp_all

lemma wprocs_idle: "wprocs (replicate n OIdle) = n"
  by (induction n) simp_all

lemma weight_start:
  assumes "Run_start p = (tr, Inr s0)" and "source p = ChannelSource vs cl"
  shows "weight s0 = length vs * (2 * length (operators p) + 4) + length (operators p) + 4"
proof -
  from Run_start_Inr[OF assms(1)] assms(2) obtain sk where
    b: "s0 = \<lparr>cancelled = None, feed = vs, calls = 0, src = SIdle,
           chans = make_chan 100 # replicate (length (operators p)) (make_chan 100),
           procs = replicate (length (operators p)) OIdle, cons = CIdle,
           written = [], errs = errChan p, done_closed = False,
           drv = Waiting, closes = []\<rparr>"
    by (auto simp: ChannelSource_Stream_def)
  have "wchans (make_chan 100 # replicate (length (operators p)) (make_chan 100)) = 0"
    by (rule wchans_empty) (auto simp: make_chan_def)
  then show ?thesis by (simp add: weight_def b wprocs_idle)
qed

lemma run_bounded:
  assumes "reach p sched s" and "cancelled s = None" and "source p = ChannelSource vs cl"
  shows "length sched \<le> length vs * (2 * length (operators p) + 4) + length (operators p) + 4"
proof -
  from assms(1) obtain tr s0 where a: "Run_start p = (tr, Inr s0)" "exec p sched s0 = Some s"
    by (rule reach_start)
  from exec_weight[OF assms(3) a(2) assms(2) wf_start[OF a(1)]] weight_start[OF a(1) assms(3)]
  show ?thesis by simp
qed

lemma can_complete:
  assumes sr: "source p = ChannelSource vs True" and sk: "sink p = Some sk"
    and ok: "\<forall>h m. Write sk h m = None"
  shows "wf p s \<Longrightarrow> nc_inv p s \<Longrightarrow> drv_inv p sk s \<Longrightarrow> srunning (src s) \<Longrightarrow> cancelled s = None
    \<Longrightarrow> \<exists>rest s'. exec p rest s = Some s' \<and> cancelled s' = None \<and> drv s' \<noteq> Waiting"
proof (induction "weight s" arbitrary: s rule: less_induct)
  case less
  show ?case
  proof (cases "drv s")
    case (Returned r)
    then have "exec p [] s = Some s \<and> cancelled s = None \<and> drv s \<noteq> Waiting"
      using less.prems(5) by simp
    then show ?thesis by blast
  next
    case Waiting
    from progress[OF less.prems(1) sr less.prems(4) sk less.prems(3) ok Waiting]
    obtain a s1 where s1: "step p a s = Some s1" "cancelled s1 = cancelled s" by blast
    from step_act[OF s1(1)] have a: "act p a s = Some s1" by simp
    from s1(2) less.prems(5) have c1: "cancelled s1 = None" by simp
    note w1 = wf_act[OF less.prems(1) a]
    note n1 = nc_inv_act[OF less.prems(1,2) a]
    note d1 = drv_inv_act[OF less.prems(2) sk less.prems(3) a]
    note r1 = srunning_act[OF sr less.prems(4) a]
    from weight_act[OF less.prems(1) a c1 sr] have "weight s1 < weight s" .
    from less.hyps[OF this w1 n1 d1 r1 c1] obtain rest s' where
      m: "exec p rest s1 = Some s'" "cancelled s' = None" "drv s' \<noteq> Waiting" by blast
    from s1(1) m(1) have "exec p (a # rest) s = Some s'" by simp
    with m(2,3) show ?thesis by blast
  qed
qed

lemma reach_append:
  assumes "reach p sched s" and "exec p rest s = Some s'"
  shows "reach p (sched @ rest) s'"
proof -
  from assms(1) obtain tr s0 where a: "Run_start p = (tr, Inr s0)" "exec p sched s0 = Some s"
    by (rule reach_start)
  with assms(2) show ?thesis by (simp add: reach_def final_def exec_append)
qed

lemma fluent_fields:
  "sink (To sk p) = Some sk" "source (To sk p) = source p" "operators (To sk p) = operators p"
  "errChan (To sk p) = errChan p"
  "source (Map f p) = source p" "operators (Map f p) = operators p @ [MapOperator f]"
  "errChan (Map f p) = errChan p"
  "source (Filter g p) = source p" "operators (Filter g p) = operators p @ [FilterOperator g]"
  "errChan (Filter g p) = errChan p"
  "source (WithBufferSize n p) = source p" "operators (WithBufferSize n p) = operators p"
  "errChan (WithBufferSize n p) = errChan p"
  "source (New nm sr) = sr" "operators (New nm sr) = []" "errChan (New nm sr) = make_chan 10"
  "sink (New nm sr) = None"
  by (simp_all add: To_def Map_def Filter_def WithBufferSize_def New_def)

lemma returned_delivered:
  assumes r: "reach p sched s" and nc: "cancelled s = None"
    and sr: "source p = ChannelSource vs cl" and sk: "sink p = Some sk"
    and fresh: "errChan p = make_chan 10" and ok: "\<forall>h m. Write sk h m = None"
    and ret: "drv s = Returned res"
  shows "written s = fold apply_op (operators p) (map channel_msg vs)"
proof -
  from reach_inv[OF r] have w: "wf p s" and inv: "nc_inv p s" by simp_all
  from returned_done[OF reach_drv_inv[OF r sk fresh] nc ok ret] have "done_closed s" by simp
  with inv have "cons s = CDone" by (simp add: nc_inv_def)
  from delivered[OF w inv nc this sr] show ?thesis .
qed




section \<open>The claims\<close>

lemma cron_stream_nonpositive:
  "sint interval \<le> 0 \<Longrightarrow> Stream (CronSource interval generator) = Inl (Err ''interval must be positive'')"
  by (simp add: CronSource_Stream_def)

lemma operator_chan_cap:
  assumes "Run_start p = (tr, Inr s0)" and "i < length (operators p)"
  shows "cap (chans s0 ! Suc i) = 100"
  using Run_start_Inr[OF assms(1)] assms(2) by (auto simp: make_chan_def)

text \<open>
  Claim C4. A pipeline with no sink attached: \<^verbatim>\<open>Run\<close> returns the configuration error
  "sink is required" from its set-up, whatever the schedule, having called neither
  \<^verbatim>\<open>Stream\<close> on the source nor \<^verbatim>\<open>Process\<close> on any operator, and no goroutine of the run
  exists.
\<close>

theorem C4_no_sink:
  assumes "sink p = None"
  shows "Run_start p = ([], Inl (Err ''sink is required''))
       \<and> Run p sched = Some (Some (Err ''sink is required''))
       \<and> final p sched = None"
  using assms by (simp add: Run_start_def Run_def final_def)

theorem C4_no_sink_witness:
  "sink (Filter (\<lambda>n. 0 < n) (New ''w'' (ChannelSource [1::int, 2] True))) = None
   \<and> Run_start (Filter (\<lambda>n. 0 < n) (New ''w'' (ChannelSource [1::int, 2] True)))
       = ([], Inl (Err ''sink is required''))
   \<and> Run (Filter (\<lambda>n. 0 < n) (New ''w'' (ChannelSource [1::int, 2] True))) [SrcRecv]
       = Some (Some (Err ''sink is required''))"
proof -
  have h: "sink (Filter (\<lambda>n. 0 < n) (New ''w'' (ChannelSource [1::int, 2] True))) = None"
    by (simp add: Filter_def New_def)
  from C4_no_sink[OF h, of "[SrcRecv]"] h show ?thesis by simp
qed

text \<open>
  Claim C5, at an HTTP poll source with interval 0: \<^verbatim>\<open>Stream\<close> returns no error, so
  \<^verbatim>\<open>Run\<close> gets past its set-up with the producer goroutine spawned, and the producer's
  first move is the panic of \<^verbatim>\<open>time.NewTicker\<close>. (The timer source does check its
  interval, see \<open>cron_stream_nonpositive\<close>.)
\<close>

theorem C5_http_stream_zero_interval:
  "Stream (HTTPSource ''http://localhost/data'' 0 (\<lambda>b. Inr b) :: string Source)
     = Inr (SStart, make_chan 10)
   \<and> map_option src (final zero_poll_pipeline []) = Some SStart
   \<and> map_option src (final zero_poll_pipeline [SrcPoll (Response 200 (Some ''x'')) 0])
       = Some SPanic"
  by (simp add: HTTPSource_Stream_def zero_poll_pipeline_def final_def Run_start_def New_def
      To_def step_def act.simps)

text \<open>
  Claim C6, at a pipeline configured with \<^verbatim>\<open>WithBufferSize(1)\<close>: the setting is stored,
  and the channels of the run, the source's and the Map operator's, have capacity 100.
\<close>

theorem C6_buffer_size_ignored:
  "bufferCap small_buffer_pipeline = 1
   \<and> map_option (\<lambda>s. map cap (chans s)) (final small_buffer_pipeline []) = Some [100, 100]"
  by (simp add: small_buffer_pipeline_def final_def Run_start_def New_def To_def Map_def
      WithBufferSize_def ChannelSource_Stream_def make_chan_def)

text \<open>
  Claim C8. In every state a run can reach, with any of the three shipped sources, any
  operators and any schedule (cancellation included), every message has a non-nil
  metadata map: the messages sent on any channel, buffered or already received, those a
  goroutine is about to send, and those passed to the sink.
\<close>

theorem C8_metadata_never_nil:
  assumes "reach p sched s" and "m \<in> all_msgs s"
  shows "Metadata m \<noteq> None"
proof -
  have "value_blind (\<lambda>m :: 'a Message. Metadata m \<noteq> None)"
    by (simp add: value_blind_def)
  from reach_msgs_ok[OF assms(1) emits_metadata this]
  have "msgs_ok (\<lambda>m. Metadata m \<noteq> None) s" by simp
  with assms(2) show ?thesis by (simp add: msgs_ok_all)
qed

theorem C8_metadata_never_nil_witness:
  "\<exists>s m. reach test_pipeline [SrcRecv, SrcSend, SrcRecv, SrcSend, OpRecv 0, OpRecv 0] s
     \<and> m \<in> all_msgs s \<and> Value m = 2 \<and> Metadata m \<noteq> None"
proof -
  have "case final test_pipeline [SrcRecv, SrcSend, SrcRecv, SrcSend, OpRecv 0, OpRecv 0] of
          None \<Rightarrow> False
        | Some s \<Rightarrow> (case procs s ! 0 of OSending m \<Rightarrow> Value m = 2 | _ \<Rightarrow> False)
                    \<and> length (procs s) = 2"
    by code_simp
  from is_final[OF this] obtain s where
    r: "reach test_pipeline [SrcRecv, SrcSend, SrcRecv, SrcSend, OpRecv 0, OpRecv 0] s" and
    q: "case procs s ! 0 of OSending m \<Rightarrow> Value m = 2 | _ \<Rightarrow> False"
       "length (procs s) = 2"
    by blast
  from q(1) obtain m where m: "procs s ! 0 = OSending m" "Value m = 2"
    by (auto split: oproc.splits)
  from q(2) have "procs s ! 0 \<in> set (procs s)" by simp
  with m(1) have in_all: "m \<in> all_msgs s" by (force simp: all_msgs_def)
  from C8_metadata_never_nil[OF r in_all] r in_all m(2) show ?thesis by blast
qed

text \<open>
  Claim C10. Every message the channel-adapter source emits, that is, every message sent
  on its output channel or held in its pending send, in any reachable state of any run:
  its key is empty, its timestamp is zero and its metadata is an allocated, empty map.
\<close>

theorem C10_channel_source_messages:
  assumes "reach p sched s" and "source p = ChannelSource vs cl"
    and "m \<in> set (sent (chans s ! 0)) \<union> set (sheld (src s))"
  shows "Key m = [] \<and> Timestamp m = 0 \<and> Metadata m = Some Map.empty"
proof -
  let ?P = "\<lambda>m :: 'a Message. Key m = [] \<and> Timestamp m = 0 \<and> Metadata m = Some Map.empty"
  have vb: "value_blind ?P" by (simp add: value_blind_def)
  have em: "emits (source p) ?P" by (simp add: assms(2) channel_msg_def)
  from reach_msgs_ok[OF assms(1) em vb] have w: "wf p s" and ok: "msgs_ok ?P s" by simp_all
  from w have "0 < length (chans s)" by (simp add: wf_def)
  with ok have "chan_ok ?P (chans s ! 0)" by (simp add: msgs_ok_def list_all_nth)
  moreover from ok have "list_all ?P (sheld (src s))" by (simp add: msgs_ok_def)
  ultimately have "\<forall>m \<in> set (sent (chans s ! 0)) \<union> set (sheld (src s)). ?P m"
    by (auto simp: chan_ok_def sent_def list_all_iff)
  with assms(3) show ?thesis by blast
qed

theorem C10_channel_source_messages_witness:
  "\<exists>s m. reach test_pipeline [SrcRecv, SrcSend] s
     \<and> source test_pipeline = ChannelSource [1, 2, 3, 4, 5] True
     \<and> m \<in> set (sent (chans s ! 0)) \<union> set (sheld (src s))
     \<and> Value m = 1 \<and> Key m = [] \<and> Timestamp m = 0 \<and> Metadata m = Some Map.empty"
proof -
  have src: "source test_pipeline = ChannelSource [1, 2, 3, 4, 5] True"
    by (simp add: test_pipeline_def To_def Map_def Filter_def New_def)
  have "case final test_pipeline [SrcRecv, SrcSend] of
          None \<Rightarrow> False
        | Some s \<Rightarrow> (case buf (chans s ! 0) of [m] \<Rightarrow> Value m = 1 | _ \<Rightarrow> False)"
    by code_simp
  from is_final[OF this] obtain s where
    r: "reach test_pipeline [SrcRecv, SrcSend] s" and
    q: "case buf (chans s ! 0) of [m] \<Rightarrow> Value m = 1 | _ \<Rightarrow> False"
    by blast
  from q obtain m where m: "buf (chans s ! 0) = [m]" "Value m = 1"
    by (auto split: list.splits)
  then have i: "m \<in> set (sent (chans s ! 0)) \<union> set (sheld (src s))"
    by (simp add: sent_def)
  from C10_channel_source_messages[OF r src i] r src i m(2) show ?thesis by blast
qed

text \<open>
  Claim C1. A pipeline \<^verbatim>\<open>Filter(g)\<close> then \<^verbatim>\<open>Map(f)\<close> on a channel source whose feed
  delivers the values \<open>vs\<close> and is then closed, with a sink whose \<^verbatim>\<open>Write\<close> never fails,
  in any run without cancellation (\<open>f\<close> and \<open>g\<close> are any functions on the payload type;
  for Go's \<^verbatim>\<open>int\<close> that type is the 64-bit words, wrap-around included):
  \<^item> whenever \<^verbatim>\<open>Run\<close> has returned, the sink was passed exactly one message for each
    value of \<open>vs\<close> that satisfies \<open>g\<close>, in the order of \<open>vs\<close>, carrying \<open>f\<close> of it;
  \<^item> the run is finite: it has at most \<open>8 * length vs + 6\<close> moves;
  \<^item> the run never deadlocks: from every state it reaches it can be continued, without
    cancellation, to a state in which \<^verbatim>\<open>Run\<close> has returned and the sink holds that
    sequence.
\<close>

theorem C1_filter_then_map:
  assumes p: "p = To sk (Map f (Filter g (New nm (ChannelSource vs True))))"
    and ok: "\<forall>h m. Write sk h m = None"
    and r: "reach p sched s" and nc: "cancelled s = None"
  shows "(\<forall>res. drv s = Returned res \<longrightarrow>
            written s = map (\<lambda>v. channel_msg (f v)) (filter g vs))
       \<and> length sched \<le> 8 * length vs + 6
       \<and> (\<exists>rest s'. reach p (sched @ rest) s' \<and> cancelled s' = None
             \<and> (\<exists>res. drv s' = Returned res)
             \<and> written s' = map (\<lambda>v. channel_msg (f v)) (filter g vs))"
proof -
  have sr: "source p = ChannelSource vs True" and sk: "sink p = Some sk"
    and fresh: "errChan p = make_chan 10"
    and ops: "operators p = [FilterOperator g, MapOperator f]"
    by (simp_all add: p fluent_fields)
  have out: "fold apply_op (operators p) (map channel_msg vs)
      = map (\<lambda>v. channel_msg (f v)) (filter g vs)"
    by (simp add: ops filter_map_values)
  have safe: "\<And>sched s res. reach p sched s \<Longrightarrow> cancelled s = None \<Longrightarrow> drv s = Returned res
      \<Longrightarrow> written s = map (\<lambda>v. channel_msg (f v)) (filter g vs)"
    using returned_delivered[OF _ _ sr sk fresh ok] out by simp
  from run_bounded[OF r nc sr] have bound: "length sched \<le> 8 * length vs + 6"
    by (simp add: ops)
  from reach_inv[OF r] have w: "wf p s" and inv: "nc_inv p s" by simp_all
  from can_complete[OF sr sk ok w inv reach_drv_inv[OF r sk fresh] reach_srunning[OF r sr] nc]
  obtain rest s' where m: "exec p rest s = Some s'" "cancelled s' = None" "drv s' \<noteq> Waiting"
    by blast
  from m(3) obtain res where res: "drv s' = Returned res" by (cases "drv s'") simp_all
  note r' = reach_append[OF r m(1)]
  from safe[OF r' m(2) res] r' m(2) res
  have "\<exists>rest s'. reach p (sched @ rest) s' \<and> cancelled s' = None
             \<and> (\<exists>res. drv s' = Returned res)
             \<and> written s' = map (\<lambda>v. channel_msg (f v)) (filter g vs)" by blast
  with safe[OF r nc] bound show ?thesis by blast
qed

theorem C1_filter_then_map_witness:
  "\<exists>s. reach test_pipeline test_schedule s \<and> cancelled s = None \<and> drv s = Returned None
      \<and> map Value (written s) = [4, 8]
      \<and> length test_schedule \<le> 8 * length [1, 2, 3, 4, 5 :: int] + 6"
proof -
  have p: "test_pipeline = To ok_sink (Map (\<lambda>n. n * 2) (Filter (\<lambda>n. n mod 2 = 0)
       (New ''test'' (ChannelSource [1, 2, 3, 4, 5] True))))"
    by (simp add: test_pipeline_def)
  have ok: "\<forall>h m. Write ok_sink h m = None" by (simp add: ok_sink_def)
  have "case final test_pipeline test_schedule of
          None \<Rightarrow> False
        | Some s \<Rightarrow> cancelled s = None \<and> drv s = Returned None"
    by code_simp
  from is_final[OF this] obtain s where
    r: "reach test_pipeline test_schedule s" and q: "cancelled s = None" "drv s = Returned None"
    by blast
  note t = C1_filter_then_map[OF p ok r q(1)]
  from t[THEN conjunct1, rule_format, OF q(2)]
  have "written s = map (\<lambda>v. channel_msg (v * 2)) (filter (\<lambda>n. n mod 2 = 0) [1, 2, 3, 4, 5])" .
  then have v: "map Value (written s) = [4, 8]" by (simp add: channel_msg_def)
  note b = t[THEN conjunct2, THEN conjunct1]
  show ?thesis
    by (rule exI[of _ s]) (intro conjI r q v b)
qed






text \<open>
  Claim C2, at a sink whose \<^verbatim>\<open>Write\<close> fails on the only message. The consumer puts the
  wrapped error into \<^verbatim>\<open>errChan\<close> and goes on; the feed is exhausted, so it returns and
  \<^verbatim>\<open>done\<close> is closed. Both \<^verbatim>\<open>done\<close> and \<^verbatim>\<open>errChan\<close> are now ready, and Go's \<^verbatim>\<open>select\<close>
  may take either: taking \<^verbatim>\<open>done\<close>, \<^verbatim>\<open>Run\<close> closes sink and source and returns \<^verbatim>\<open>nil\<close>
  with the error still sitting in \<^verbatim>\<open>errChan\<close>; taking \<^verbatim>\<open>errChan\<close>, it returns the error.
\<close>

theorem C2_write_error_lost:
  "Run write_fails_pipeline (write_fails_schedule @ [DrvDone]) = Some None
   \<and> map_option (\<lambda>s. (cancelled s, map Value (written s), buf (errs s), closes s))
       (final write_fails_pipeline (write_fails_schedule @ [DrvDone]))
     = Some (None, [7], [Wrap ''sink write'' (Err ''boom'')], [SinkClose, SourceClose])
   \<and> Run write_fails_pipeline (write_fails_schedule @ [DrvErr])
     = Some (Some (Wrap ''sink write'' (Err ''boom'')))"
  by code_simp

section \<open>The JSON round trip\<close>

declare show_nat.simps [simp del]

lemma digit_char [simp]: "k < 10 \<Longrightarrow> (of_char (char_of (48 + k :: nat)) :: nat) = 48 + k"
  by simp

















lemma special_floats_rejected:
  "unsupported x \<Longrightarrow>
     sink_default_marshaler FormatFloat (PFloat x) = Inl (Err ''json: unsupported value'')"
  by (simp add: sink_default_marshaler_def json_Marshal_def)




end
